theory Spec2Isabelle
  imports Main "HOL-Library.Word"
begin

unbundle bit_operations_syntax

section \<open>Byte strings, errors and the Python operations the code relies on\<close>

text \<open>
  The code is Python 2: a \<^verbatim>\<open>str\<close> is a sequence of characters with \<^verbatim>\<open>ord\<close> in 0..255,
  modelled as a list of 8-bit words. Every exception the modelled code can raise is a
  constructor of \<open>error\<close>; a function that can raise returns \<open>error + 'a\<close>, with
  \<open>Inl\<close> for the exception.
\<close>

type_synonym byte = "8 word"
type_synonym bytes = "byte list"

datatype error =
    Invalid_enctype int
  | Invalid_cksumtype int
  | Wrong_crypto_seed_length
  | Ciphertext_too_short
  | Padding_requirement
  | Ciphertext_integrity_failure
  | Checksum_verification_failure
  | Cipher_key_length
  | Cipher_input_length
  | Assertion_failed
  | Struct_error
  | Zero_division
  | Index_out_of_range
  | Chr_out_of_range
  | Reduce_empty_sequence
  | Range_step_zero

definition bind_err :: "error + 'a \<Rightarrow> ('a \<Rightarrow> error + 'b) \<Rightarrow> error + 'b" where
  "bind_err m f = (case m of Inl e \<Rightarrow> Inl e | Inr x \<Rightarrow> f x)"

text \<open>A comprehension whose body can raise: the first exception ends it.\<close>

primrec mapM_err :: "('a \<Rightarrow> error + 'b) \<Rightarrow> 'a list \<Rightarrow> error + 'b list" where
  "mapM_err f [] = Inr []"
| "mapM_err f (x # xs) =
     bind_err (f x) (\<lambda>y. bind_err (mapM_err f xs) (\<lambda>ys. Inr (y # ys)))"

primrec foldM_err :: "('b \<Rightarrow> 'a \<Rightarrow> error + 'b) \<Rightarrow> 'b \<Rightarrow> 'a list \<Rightarrow> error + 'b" where
  "foldM_err f acc [] = Inr acc"
| "foldM_err f acc (x # xs) = bind_err (f acc x) (\<lambda>acc'. foldM_err f acc' xs)"

text \<open>
  Python's \<^verbatim>\<open>reduce(f, seq)\<close> without an initial value: a TypeError on the empty
  sequence, the single element (with no call of \<open>f\<close>) on a sequence of one.
\<close>

definition reduce :: "('a \<Rightarrow> 'a \<Rightarrow> error + 'a) \<Rightarrow> 'a list \<Rightarrow> error + 'a" where
  "reduce f xs = (case xs of [] \<Rightarrow> Inl Reduce_empty_sequence | x # rest \<Rightarrow> foldM_err f x rest)"

definition ord :: "byte \<Rightarrow> nat" where
  "ord c = unat c"

text \<open>\<^verbatim>\<open>chr(n)\<close> raises ValueError outside \<^verbatim>\<open>range(256)\<close>.\<close>

definition chr :: "nat \<Rightarrow> error + byte" where
  "chr n = (if n < 256 then Inr (of_nat n) else Inl Chr_out_of_range)"

text \<open>Indexing \<^verbatim>\<open>xs[i]\<close>: a negative index counts from the end, IndexError out of range.\<close>

definition py_index :: "'a list \<Rightarrow> int \<Rightarrow> error + 'a" where
  "py_index xs i =
     (if 0 \<le> i \<and> i < int (length xs) then Inr (xs ! nat i)
      else if i < 0 \<and> - int (length xs) \<le> i then Inr (xs ! nat (int (length xs) + i))
      else Inl Index_out_of_range)"

text \<open>\<^verbatim>\<open>xrange(start, stop, step)\<close> for a positive step (a zero step is checked by the caller).\<close>

definition xrange :: "nat \<Rightarrow> nat \<Rightarrow> nat \<Rightarrow> nat list" where
  "xrange start stop step = map (\<lambda>k. start + k * step) [0..<(stop - start + step - 1) div step]"

section \<open>The n-fold operation (\<^verbatim>\<open>_nfold\<close> in crypto.py)\<close>

text \<open>
  \<^verbatim>\<open>rotate_right(str, nbits)\<close>: byte \<open>i\<close> of the result is
  \<^verbatim>\<open>chr((ord(str[i-nbytes]) >> remain) | ((ord(str[i-nbytes-1]) << (8-remain)) & 0xff))\<close>
  with \<^verbatim>\<open>nbytes, remain = (nbits//8) % len(str), nbits % 8\<close>. The modulo raises
  ZeroDivisionError on the empty string.
\<close>

definition rotate_right :: "bytes \<Rightarrow> nat \<Rightarrow> error + bytes" where
  "rotate_right str nbits =
     (if length str = 0 then Inl Zero_division
      else let nbytes = (nbits div 8) mod length str; remain = nbits mod 8
        in mapM_err (\<lambda>i.
             bind_err (py_index str (int i - int nbytes)) (\<lambda>a.
             bind_err (py_index str (int i - int nbytes - 1)) (\<lambda>b.
               chr (drop_bit remain (ord a) OR (push_bit (8 - remain) (ord b) AND 255)))))
           [0..<length str])"

text \<open>
  \<^verbatim>\<open>add_ones_complement(str1, str2)\<close>: the list \<open>v\<close> of byte sums, then the loop
  \<^verbatim>\<open>while any(x & ~0xff for x in v): v = [(v[i-n+1]>>8) + (v[i]&0xff) for i in xrange(n)]\<close>
  with \<open>n = len(str1)\<close>. The entries are sums of \<^verbatim>\<open>ord\<close> values, hence natural numbers;
  the loop test is the source's, read on the integer.
\<close>

definition has_carry :: "nat list \<Rightarrow> bool" where
  "has_carry v = list_ex (\<lambda>x. int x AND NOT 255 \<noteq> 0) v"

definition carry_step :: "nat \<Rightarrow> nat list \<Rightarrow> error + nat list" where
  "carry_step n v =
     mapM_err (\<lambda>i.
       bind_err (py_index v (int i - int n + 1)) (\<lambda>hi.
       bind_err (py_index v (int i)) (\<lambda>lo.
         Inr (drop_bit 8 hi + (lo AND 255)))))
     [0..<n]"

subsection \<open>Facts about the helpers, needed for the termination of the carry loop\<close>

lemma bind_err_Inr_iff: "bind_err m f = Inr y \<longleftrightarrow> (\<exists>x. m = Inr x \<and> f x = Inr y)"
  by (cases m) (simp_all add: bind_err_def)

lemma bind_err_simps [simp]: "bind_err (Inl e) f = Inl e" "bind_err (Inr x) f = f x"
  by (simp_all add: bind_err_def)

lemma mapM_err_Inr_iff:
  "mapM_err f xs = Inr ys \<longleftrightarrow> list_all2 (\<lambda>x y. f x = Inr y) xs ys"
proof (induction xs arbitrary: ys)
  case Nil
  then show ?case by auto
next
  case (Cons x xs)
  show ?case
    by (cases ys) (auto simp: bind_err_Inr_iff Cons.IH)
qed

lemma mapM_err_nth:
  assumes "mapM_err f xs = Inr ys"
  shows "length ys = length xs" and "i < length xs \<Longrightarrow> f (xs ! i) = Inr (ys ! i)"
  using assms by (auto simp: mapM_err_Inr_iff list_all2_conv_all_nth)

lemma mapM_err_total:
  assumes "\<And>x. x \<in> set xs \<Longrightarrow> \<exists>y. f x = Inr y"
  shows "\<exists>ys. mapM_err f xs = Inr ys"
  using assms by (induction xs) (auto simp: bind_err_Inr_iff)

lemma py_index_Inr_iff:
  "py_index xs i = Inr x \<longleftrightarrow>
     (0 \<le> i \<and> i < int (length xs) \<and> x = xs ! nat i) \<or>
     (i < 0 \<and> - int (length xs) \<le> i \<and> x = xs ! nat (int (length xs) + i))"
  by (auto simp: py_index_def)

lemma and_not_255: "(k::int) AND NOT 255 = push_bit 8 (drop_bit 8 k)"
proof -
  have "(255::int) = mask 8" by (simp add: mask_eq_exp_minus_1)
  moreover have "k AND NOT (mask 8) = push_bit 8 (drop_bit 8 k)"
    by (rule bit_eqI) (auto simp: bit_simps)
  ultimately show ?thesis by simp
qed

lemma carry_test: "int x AND NOT 255 \<noteq> 0 \<longleftrightarrow> 256 \<le> x"
proof -
  have "int x AND NOT 255 = 0 \<longleftrightarrow> push_bit 8 (drop_bit 8 (int x)) = 0"
    by (simp only: and_not_255)
  also have "\<dots> \<longleftrightarrow> int x div 256 = 0"
    by (simp add: push_bit_eq_mult drop_bit_eq_div)
  also have "\<dots> \<longleftrightarrow> x < 256"
  proof -
    have "int x div 256 = int (x div 256)" by (simp add: zdiv_int)
    then show ?thesis using div_greater_zero_iff [of x 256] by auto
  qed
  finally show ?thesis by auto
qed

lemma has_carry_iff: "has_carry v \<longleftrightarrow> (\<exists>x\<in>set v. 256 \<le> x)"
  unfolding has_carry_def list_ex_iff by (simp only: carry_test)

lemma and_255: "(x::nat) AND 255 = x mod 256"
proof -
  have m: "mask 8 = (255::nat)" by (simp add: mask_eq_exp_minus_1)
  have "x AND mask 8 = x mod 2 ^ 8"
    by (simp only: take_bit_eq_mask [symmetric] take_bit_eq_mod)
  then show ?thesis unfolding m by simp
qed

lemma or_less_256: "a < 256 \<Longrightarrow> b < 256 \<Longrightarrow> (a::nat) OR b < 256"
proof -
  assume "a < 256" "b < 256"
  then have "take_bit 8 a = a" "take_bit 8 b = b" by (simp_all add: take_bit_nat_eq_self_iff)
  then have "a OR b = take_bit 8 (a OR b)" by simp
  also have "\<dots> < 2 ^ 8" by (rule take_bit_nat_less_exp)
  finally show ?thesis by simp
qed

text \<open>
  One round of the loop succeeds only on a list of at least \<open>n\<close> entries; entry \<open>i\<close> of
  the new list adds the carry of its right neighbour (of entry 0 for the last one: the
  end-around carry) to the low byte of entry \<open>i\<close>.
\<close>

lemma carry_step_nth:
  assumes "carry_step n v = Inr v'"
  shows "length v' = n" and "n \<le> length v"
    and "i < n \<Longrightarrow> v' ! i = v ! (if i + 1 < n then length v + i + 1 - n else 0) div 256 + v ! i mod 256"
proof -
  let ?f = "\<lambda>i. bind_err (py_index v (int i - int n + 1)) (\<lambda>hi.
       bind_err (py_index v (int i)) (\<lambda>lo. Inr (drop_bit 8 hi + (lo AND 255))))"
  from assms have m: "mapM_err ?f [0..<n] = Inr v'" by (simp add: carry_step_def)
  from mapM_err_nth(1) [OF m] show len: "length v' = n" by simp
  have step: "?f i = Inr (v' ! i)" if "i < n" for i
    using mapM_err_nth(2) [OF m, of i] that by simp
  show le: "n \<le> length v"
  proof (cases n)
    case 0
    then show ?thesis by simp
  next
    case (Suc k)
    from step [of k] Suc obtain lo where "py_index v (int k) = Inr lo"
      by (auto simp: bind_err_Inr_iff)
    then have "k < length v" by (auto simp: py_index_Inr_iff)
    with Suc show ?thesis by simp
  qed
  show "v' ! i = v ! (if i + 1 < n then length v + i + 1 - n else 0) div 256 + v ! i mod 256"
    if "i < n"
  proof -
    from step [OF that] obtain hi lo where
      hi: "py_index v (int i - int n + 1) = Inr hi" and lo: "py_index v (int i) = Inr lo"
      and r: "v' ! i = drop_bit 8 hi + (lo AND 255)"
      by (auto simp: bind_err_Inr_iff)
    from lo have lo': "lo = v ! i" by (auto simp: py_index_Inr_iff)
    have hi': "hi = v ! (if i + 1 < n then length v + i + 1 - n else 0)"
    proof (cases "i + 1 < n")
      case True
      then have "int i - int n + 1 < 0" by simp
      with hi have "hi = v ! nat (int (length v) + (int i - int n + 1))"
        by (auto simp: py_index_Inr_iff)
      moreover have "nat (int (length v) + (int i - int n + 1)) = length v + i + 1 - n"
        using le True by linarith
      ultimately show ?thesis using True by simp
    next
      case False
      with that have "int i - int n + 1 = 0" by linarith
      with hi have "hi = v ! 0" by (auto simp: py_index_Inr_iff)
      with False show ?thesis by simp
    qed
    show ?thesis unfolding r hi' lo' by (simp add: and_255 drop_bit_eq_div)
  qed
qed

text \<open>While a carry is pending, a round makes the sum of the entries smaller.\<close>

lemma carry_step_decreases:
  assumes c: "has_carry v" and s: "carry_step n v = Inr v'"
  shows "sum_list v' < sum_list v"
proof -
  let ?s = "\<lambda>i. if i + 1 < n then length v + i + 1 - n else 0"
  note len = carry_step_nth(1) [OF s] and le = carry_step_nth(2) [OF s]
  have "sum_list v' = (\<Sum>i\<in>{0..<n}. v' ! i)"
    by (simp add: sum_list_sum_nth len)
  also have "\<dots> = (\<Sum>i\<in>{0..<n}. v ! ?s i div 256 + v ! i mod 256)"
    by (rule sum.cong) (simp_all add: carry_step_nth(3) [OF s])
  also have "\<dots> = (\<Sum>i\<in>{0..<n}. v ! ?s i div 256) + (\<Sum>i\<in>{0..<n}. v ! i mod 256)"
    by (rule sum.distrib)
  also have "(\<Sum>i\<in>{0..<n}. v ! ?s i div 256) \<le> (\<Sum>j\<in>{0..<length v}. v ! j div 256)"
  proof -
    have inj: "inj_on ?s {0..<n}"
      using le by (auto simp: inj_on_def split: if_splits)
    have "(\<Sum>i\<in>{0..<n}. v ! ?s i div 256) = (\<Sum>j\<in>?s ` {0..<n}. v ! j div 256)"
      using sum.reindex [OF inj, of "\<lambda>j. v ! j div 256"] by (simp add: o_def)
    also have "\<dots> \<le> (\<Sum>j\<in>{0..<length v}. v ! j div 256)"
      using le by (intro sum_mono2) (auto split: if_splits)
    finally show ?thesis .
  qed
  also have "(\<Sum>i\<in>{0..<n}. v ! i mod 256) \<le> (\<Sum>j\<in>{0..<length v}. v ! j mod 256)"
    using le by (intro sum_mono2) auto
  also have "(\<Sum>j\<in>{0..<length v}. v ! j div 256) + (\<Sum>j\<in>{0..<length v}. v ! j mod 256)
      = (\<Sum>j\<in>{0..<length v}. v ! j div 256 + v ! j mod 256)"
    by (rule sum.distrib [symmetric])
  also have "\<dots> < (\<Sum>j\<in>{0..<length v}. v ! j)"
  proof (rule sum_strict_mono_ex1)
    show "finite {0..<length v}" by simp
    show "\<forall>j\<in>{0..<length v}. v ! j div 256 + v ! j mod 256 \<le> v ! j"
    proof
      fix j
      have "v ! j div 256 + v ! j mod 256 \<le> 256 * (v ! j div 256) + v ! j mod 256" by simp
      then show "v ! j div 256 + v ! j mod 256 \<le> v ! j" by simp
    qed
    from c obtain j where "j < length v" "256 \<le> v ! j"
      by (auto simp: has_carry_iff in_set_conv_nth)
    then have "1 \<le> v ! j div 256" by simp
    moreover have "v ! j = 256 * (v ! j div 256) + v ! j mod 256" by simp
    ultimately have "v ! j div 256 + v ! j mod 256 < v ! j" by linarith
    with \<open>j < length v\<close> show "\<exists>j\<in>{0..<length v}. v ! j div 256 + v ! j mod 256 < v ! j"
      by auto
  qed
  also have "\<dots> = sum_list v" by (simp add: sum_list_sum_nth)
  finally show ?thesis by simp
qed

function carry_loop :: "nat \<Rightarrow> nat list \<Rightarrow> error + nat list" where
  "carry_loop n v =
     (if has_carry v
      then (case carry_step n v of Inl e \<Rightarrow> Inl e | Inr v' \<Rightarrow> carry_loop n v')
      else Inr v)"
  by pat_completeness auto
termination carry_loop
  by (relation "measure (\<lambda>(n, v). sum_list v)") (auto simp: carry_step_decreases)

declare carry_loop.simps [simp del]

definition add_ones_complement :: "bytes \<Rightarrow> bytes \<Rightarrow> error + bytes" where
  "add_ones_complement str1 str2 =
     (let n = length str1;
          v = map (\<lambda>(a, b). ord a + ord b) (zip str1 str2)
      in bind_err (carry_loop n v) (mapM_err chr))"

text \<open>
  \<^verbatim>\<open>_nfold(str, nbytes)\<close>. \<^verbatim>\<open>fractions.gcd\<close> of two zeros is zero, so the first division
  raises; with an empty \<open>str\<close> the division \<^verbatim>\<open>lcm / slen\<close> raises; with \<open>nbytes = 0\<close> the
  \<^verbatim>\<open>xrange\<close> of the slices has step zero and raises. The slice \<^verbatim>\<open>bigstr[p:p+nbytes]\<close> is
  \<open>take nbytes (drop p bigstr)\<close>.
\<close>

definition nfold :: "bytes \<Rightarrow> nat \<Rightarrow> error + bytes" where
  "nfold str nbytes =
     (let slen = length str in
      if gcd nbytes slen = 0 then Inl Zero_division
      else let lcm_len = nbytes * slen div gcd nbytes slen in
        if slen = 0 then Inl Zero_division
        else bind_err (mapM_err (\<lambda>i. rotate_right str (13 * i)) [0..<lcm_len div slen]) (\<lambda>copies.
          let bigstr = concat copies in
          if nbytes = 0 then Inl Range_step_zero
          else reduce add_ones_complement
                 (map (\<lambda>p. take nbytes (drop p bigstr)) (xrange 0 lcm_len nbytes))))"

section \<open>Properties of n-fold\<close>

lemma chr_ord: "chr (ord a) = Inr a"
  using unsigned_less [of a, where ?'a = nat] by (simp add: chr_def ord_def)

lemma push_bit_8_and_255: "push_bit 8 (b::nat) AND 255 = 0"
  by (simp add: and_255 push_bit_eq_mult)

lemma rotate_right_0:
  assumes "str \<noteq> []"
  shows "rotate_right str 0 = Inr str"
proof -
  have "bind_err (py_index str (int i)) (\<lambda>a.
          bind_err (py_index str (int i - 1)) (\<lambda>b.
            chr (drop_bit 0 (ord a) OR (push_bit 8 (ord b) AND 255)))) = Inr (str ! i)"
    if "i < length str" for i
  proof -
    have "py_index str (int i) = Inr (str ! i)"
      using that by (simp add: py_index_Inr_iff)
    moreover have "\<exists>b. py_index str (int i - 1) = Inr b"
      using that by (cases "i = 0") (auto simp: py_index_def Suc_le_eq)
    ultimately show ?thesis
      by (auto simp: push_bit_8_and_255 chr_ord)
  qed
  then show ?thesis
    using assms
    by (simp add: rotate_right_def mapM_err_Inr_iff list_all2_conv_all_nth)
qed

text \<open>
  Claim C7. For every non-empty byte string \<open>s\<close>, \<open>nfold s (length s)\<close> returns \<open>s\<close>
  itself. \<open>nfold\<close> has no branch for equal lengths: the result comes from the general
  path, with one copy rotated by zero bits, one slice, and \<open>reduce\<close> over that slice.
\<close>

theorem nfold_same_length:
  assumes "s \<noteq> []"
  shows "nfold s (length s) = Inr s"
proof -
  let ?n = "length s"
  from assms have n: "0 < ?n" by simp
  then have l: "?n * ?n div ?n = ?n" by simp
  have "(?n + ?n - 1) div ?n = 1"
    using n by (simp add: div_nat_eqI)
  then have x: "xrange 0 ?n ?n = [0]"
    by (simp add: xrange_def)
  show ?thesis
    using n by (simp add: nfold_def l rotate_right_0 [OF assms] x reduce_def)
qed

theorem nfold_same_length_witness:
  "[107, 114, 98] \<noteq> ([] :: bytes) \<and>
   nfold [107, 114, 98] (length [107, 114, 98 :: byte]) = Inr [107, 114, 98]"
  using nfold_same_length [of "[107, 114, 98]"] by simp

section \<open>Slices, padding and byte-wise helpers\<close>

text \<open>
  \<^verbatim>\<open>xs[:-k]\<close> and \<^verbatim>\<open>xs[-k:]\<close> for a constant \<open>k \<ge> 0\<close>: Python clamps the bounds to the
  string, and \<open>-0\<close> is \<open>0\<close>, so that \<^verbatim>\<open>xs[:-0]\<close> is empty and \<^verbatim>\<open>xs[-0:]\<close> is \<open>xs\<close>.
\<close>

definition slice_to_neg :: "'a list \<Rightarrow> nat \<Rightarrow> 'a list" where
  "slice_to_neg xs k = (if k = 0 then [] else take (length xs - k) xs)"

definition slice_from_neg :: "'a list \<Rightarrow> nat \<Rightarrow> 'a list" where
  "slice_from_neg xs k = (if k = 0 then xs else drop (length xs - k) xs)"

text \<open>\<^verbatim>\<open>xs[-j:-k]\<close> for constants \<open>j > k > 0\<close>.\<close>

definition slice_neg_neg :: "'a list \<Rightarrow> nat \<Rightarrow> nat \<Rightarrow> 'a list" where
  "slice_neg_neg xs j k = drop (length xs - j) (take (length xs - k) xs)"

definition zeropad :: "bytes \<Rightarrow> nat \<Rightarrow> error + bytes" where
  "zeropad s padsize =
     (if padsize = 0 then Inl Zero_division
      else let padlen = (padsize - (length s mod padsize)) mod padsize
           in Inr (s @ replicate padlen 0))"

definition xorbytes :: "bytes \<Rightarrow> bytes \<Rightarrow> error + bytes" where
  "xorbytes b1 b2 =
     (if length b1 \<noteq> length b2 then Inl Assertion_failed
      else mapM_err (\<lambda>(x, y). chr (ord x XOR ord y)) (zip b1 b2))"

definition mac_equal :: "bytes \<Rightarrow> bytes \<Rightarrow> error + bool" where
  "mac_equal mac1 mac2 =
     (if length mac1 \<noteq> length mac2 then Inl Assertion_failed
      else Inr (foldl (\<lambda>res (x, y). res OR (ord x XOR ord y)) 0 (zip mac1 mac2) = 0))"

text \<open>
  \<^verbatim>\<open>pack('>IB', n, b)\<close>: four big-endian bytes of \<open>n\<close> and the byte \<open>b\<close>; struct.error
  when a value does not fit its field. \<^verbatim>\<open>unpack('>L', s)\<close>: struct.error unless \<open>s\<close> has
  four bytes.
\<close>

definition pack_IB :: "int \<Rightarrow> int \<Rightarrow> error + bytes" where
  "pack_IB n b =
     (if 0 \<le> n \<and> n < 2 ^ 32 \<and> 0 \<le> b \<and> b < 256
      then Inr [word_of_int (drop_bit 24 n), word_of_int (drop_bit 16 n),
                word_of_int (drop_bit 8 n), word_of_int n, word_of_int b]
      else Inl Struct_error)"

definition unpack_L :: "bytes \<Rightarrow> error + nat" where
  "unpack_L s =
     (case s of
        [a, b, c, d] \<Rightarrow> Inr (((ord a * 256 + ord b) * 256 + ord c) * 256 + ord d)
      | _ \<Rightarrow> Inl Struct_error)"

section \<open>The primitives of PyCrypto\<close>

text \<open>
  AES, HMAC-SHA1, PBKDF2 and the random source come from PyCrypto and are parameters of
  the model. AES maps a 16-byte block to a 16-byte block under a key, and an HMAC-SHA1
  digest has 20 bytes; both sizes are part of the types.
\<close>

typedef block = "{bs :: 8 word list. length bs = 16}"
  by (rule exI [of _ "replicate 16 0"]) simp

typedef sha1_digest = "{bs :: 8 word list. length bs = 20}"
  by (rule exI [of _ "replicate 20 0"]) simp

record primitives =
  aes_encrypt_block :: "bytes \<Rightarrow> block \<Rightarrow> block"
  aes_decrypt_block :: "bytes \<Rightarrow> block \<Rightarrow> block"
  hmac_sha1 :: "bytes \<Rightarrow> bytes \<Rightarrow> sha1_digest"
  pbkdf2_hmac_sha1 :: "bytes \<Rightarrow> bytes \<Rightarrow> nat \<Rightarrow> nat \<Rightarrow> bytes"
  get_random_bytes :: "nat \<Rightarrow> bytes"

text \<open>\<^verbatim>\<open>AES.new(key, ...)\<close> raises ValueError unless the key has 16, 24 or 32 bytes.\<close>

definition AES_new :: "bytes \<Rightarrow> error + unit" where
  "AES_new k = (if length k \<in> {16, 24, 32} then Inr () else Inl Cipher_key_length)"

text \<open>
  \<^verbatim>\<open>encrypt\<close> of a CBC cipher object and \<^verbatim>\<open>decrypt\<close> of an ECB cipher object: ValueError
  unless the input is a multiple of 16 bytes; then block by block.
\<close>

fun cbc_blocks :: "(block \<Rightarrow> block) \<Rightarrow> bytes \<Rightarrow> bytes \<Rightarrow> bytes" where
  "cbc_blocks f iv data =
     (if data = [] then []
      else let c = Rep_block (f (Abs_block (map2 (XOR) (take 16 data) iv)))
           in c @ cbc_blocks f c (drop 16 data))"

fun ecb_blocks :: "(block \<Rightarrow> block) \<Rightarrow> bytes \<Rightarrow> bytes" where
  "ecb_blocks f data =
     (if data = [] then []
      else Rep_block (f (Abs_block (take 16 data))) @ ecb_blocks f (drop 16 data))"

declare cbc_blocks.simps [simp del] ecb_blocks.simps [simp del]

definition cbc_encrypt :: "primitives \<Rightarrow> bytes \<Rightarrow> bytes \<Rightarrow> bytes \<Rightarrow> error + bytes" where
  "cbc_encrypt P k iv data =
     (if length data mod 16 \<noteq> 0 then Inl Cipher_input_length
      else Inr (cbc_blocks (aes_encrypt_block P k) iv data))"

definition ecb_decrypt :: "primitives \<Rightarrow> bytes \<Rightarrow> bytes \<Rightarrow> error + bytes" where
  "ecb_decrypt P k data =
     (if length data mod 16 \<noteq> 0 then Inl Cipher_input_length
      else Inr (ecb_blocks (aes_decrypt_block P k) data))"

definition hmac_digest :: "primitives \<Rightarrow> bytes \<Rightarrow> bytes \<Rightarrow> bytes" where
  "hmac_digest P k msg = Rep_sha1_digest (hmac_sha1 P k msg)"

section \<open>Keys and enctype profiles\<close>

record Key =
  enctype :: int
  contents :: bytes

definition AES128_CTS :: int where "AES128_CTS = 17"
definition AES256_CTS :: int where "AES256_CTS = 18"
definition SHA1_AES128 :: int where "SHA1_AES128 = 15"
definition SHA1_AES256 :: int where "SHA1_AES256 = 16"

text \<open>
  The class attributes of an enctype profile. \<^verbatim>\<open>_AESEnctype\<close> sets
  \<^verbatim>\<open>enctype = Enctypenum.AES256_CTS\<close>, block size 16, padding multiple 1, MAC size 12
  and the hash SHA-1; its subclasses \<^verbatim>\<open>_AES128CTS\<close> and \<^verbatim>\<open>_AES256CTS\<close> add the seed size
  and nothing else, so both inherit the \<^verbatim>\<open>enctype\<close> attribute of the base class.
\<close>

record enctype_profile =
  cls_enctype :: int
  blocksize :: nat
  padsize :: nat
  macsize :: nat
  seedsize :: nat

definition AESEnctype :: "nat \<Rightarrow> enctype_profile" where
  "AESEnctype sz =
     \<lparr>cls_enctype = AES256_CTS, blocksize = 16, padsize = 1, macsize = 12, seedsize = sz\<rparr>"

definition AES128CTS :: enctype_profile where
  "AES128CTS = AESEnctype 16"

definition AES256CTS :: enctype_profile where
  "AES256CTS = AESEnctype 32"

record checksum_profile =
  cksum_macsize :: nat
  enc :: enctype_profile

definition SHA1AES128 :: checksum_profile where
  "SHA1AES128 = \<lparr>cksum_macsize = 12, enc = AES128CTS\<rparr>"

definition SHA1AES256 :: checksum_profile where
  "SHA1AES256 = \<lparr>cksum_macsize = 12, enc = AES256CTS\<rparr>"

definition enctype_table :: "int \<rightharpoonup> enctype_profile" where
  "enctype_table = [AES128_CTS \<mapsto> AES128CTS, AES256_CTS \<mapsto> AES256CTS]"

definition checksum_table :: "int \<rightharpoonup> checksum_profile" where
  "checksum_table = [SHA1_AES128 \<mapsto> SHA1AES128, SHA1_AES256 \<mapsto> SHA1AES256]"

definition get_enctype_profile :: "int \<Rightarrow> error + enctype_profile" where
  "get_enctype_profile e =
     (case enctype_table e of None \<Rightarrow> Inl (Invalid_enctype e) | Some p \<Rightarrow> Inr p)"

definition get_checksum_profile :: "int \<Rightarrow> error + checksum_profile" where
  "get_checksum_profile c =
     (case checksum_table c of None \<Rightarrow> Inl (Invalid_cksumtype c) | Some p \<Rightarrow> Inr p)"

text \<open>The class method \<^verbatim>\<open>_Enctype.random_to_key\<close>: \<^verbatim>\<open>Key(cls.enctype, seed)\<close>.\<close>

definition Enctype_random_to_key :: "enctype_profile \<Rightarrow> bytes \<Rightarrow> Key" where
  "Enctype_random_to_key cls seed = \<lparr>enctype = cls_enctype cls, contents = seed\<rparr>"

section \<open>The ciphertext-stealing cipher of \<^verbatim>\<open>_AESEnctype\<close>\<close>

definition basic_encrypt :: "primitives \<Rightarrow> Key \<Rightarrow> bytes \<Rightarrow> error + bytes" where
  "basic_encrypt P key plaintext =
     (if \<not> 16 \<le> length plaintext then Inl Assertion_failed
      else bind_err (AES_new (contents key)) (\<lambda>_.
           bind_err (zeropad plaintext 16) (\<lambda>padded.
           bind_err (cbc_encrypt P (contents key) (replicate 16 0) padded) (\<lambda>ctext.
             if 16 < length plaintext
             then let lastlen = (if length plaintext mod 16 \<noteq> 0 then length plaintext mod 16 else 16)
                  in Inr (slice_to_neg ctext 32 @ slice_from_neg ctext 16
                          @ take lastlen (slice_neg_neg ctext 32 16))
             else Inr ctext))))"

fun cbc_decrypt_loop ::
  "primitives \<Rightarrow> bytes \<Rightarrow> bytes list \<Rightarrow> bytes \<times> bytes \<Rightarrow> error + bytes \<times> bytes" where
  "cbc_decrypt_loop P k [] (plaintext, prev_cblock) = Inr (plaintext, prev_cblock)"
| "cbc_decrypt_loop P k (b # bs) (plaintext, prev_cblock) =
     bind_err (ecb_decrypt P k b) (\<lambda>d.
     bind_err (xorbytes d prev_cblock) (\<lambda>x.
       cbc_decrypt_loop P k bs (plaintext @ x, b)))"

definition basic_decrypt :: "primitives \<Rightarrow> Key \<Rightarrow> bytes \<Rightarrow> error + bytes" where
  "basic_decrypt P key ciphertext =
     (if \<not> 16 \<le> length ciphertext then Inl Assertion_failed
      else bind_err (AES_new (contents key)) (\<lambda>_.
        if length ciphertext = 16 then ecb_decrypt P (contents key) ciphertext
        else
          let cblocks = map (\<lambda>p. take 16 (drop p ciphertext)) (xrange 0 (length ciphertext) 16) in
          bind_err (py_index cblocks (- 1)) (\<lambda>last_cblock.
          let lastlen = length last_cblock in
          bind_err (cbc_decrypt_loop P (contents key) (slice_to_neg cblocks 2) ([], replicate 16 0))
            (\<lambda>(plaintext, prev_cblock).
          bind_err (py_index cblocks (- 2)) (\<lambda>cblock2.
          bind_err (ecb_decrypt P (contents key) cblock2) (\<lambda>b.
          bind_err (xorbytes (take lastlen b) last_cblock) (\<lambda>lastplaintext.
          let omitted = drop lastlen b in
          bind_err (ecb_decrypt P (contents key) (last_cblock @ omitted)) (\<lambda>d.
          bind_err (xorbytes d prev_cblock) (\<lambda>x.
            Inr ((plaintext @ x) @ lastplaintext))))))))))"

lemma length_Rep_block [simp]: "length (Rep_block b) = 16"
  using Rep_block [of b] by simp

lemma Rep_Abs_block [simp]: "length bs = 16 \<Longrightarrow> Rep_block (Abs_block bs) = bs"
  by (simp add: Abs_block_inverse)

lemma Abs_Rep_block [simp]: "Abs_block (Rep_block b) = b"
  by (rule Rep_block_inverse)

lemma length_Rep_sha1_digest [simp]: "length (Rep_sha1_digest d) = 20"
  using Rep_sha1_digest [of d] by simp

lemma length_cbc_blocks:
  "length data mod 16 = 0 \<Longrightarrow> length (cbc_blocks f iv data) = length data"
proof (induction f iv data rule: cbc_blocks.induct)
  case (1 f iv data)
  show ?case
  proof (cases "data = []")
    case True
    then show ?thesis by (simp add: cbc_blocks.simps)
  next
    case False
    with "1.prems" have len: "16 \<le> length data"
      by (cases "length data < 16") auto
    from "1.prems" obtain k where k: "length data = 16 * k"
      by (auto simp: mod_eq_0_iff_dvd)
    then have "length data - 16 = 16 * (k - 1)" by simp
    then have "length (drop 16 data) mod 16 = 0" by simp
    with "1.IH" [OF False refl] have
      "length (cbc_blocks f (Rep_block (f (Abs_block (map2 (XOR) (take 16 data) iv)))) (drop 16 data))
        = length data - 16"
      by simp
    with False len show ?thesis
      by (subst cbc_blocks.simps) (simp add: Let_def)
  qed
qed

lemma zeropad_16:
  "zeropad s 16 = Inr (s @ replicate ((16 - length s mod 16) mod 16) 0)"
  by (simp add: zeropad_def)

lemma mod_16_bounds:
  fixes n :: nat
  assumes "16 \<le> n"
  shows "16 + n mod 16 \<le> n"
proof -
  from assms have "1 \<le> n div 16" using div_greater_zero_iff [of n 16] by simp
  then have "16 \<le> 16 * (n div 16)" by simp
  moreover have "n = 16 * (n div 16) + n mod 16" by simp
  ultimately show ?thesis by linarith
qed

lemma padded_length_mod: "(n + (16 - n mod 16) mod 16) mod 16 = (0::nat)"
proof (cases "n mod 16 = 0")
  case True
  then show ?thesis by simp
next
  case False
  define q r where "q = n div 16" and "r = n mod 16"
  have n: "n = 16 * q + r" and r: "r < 16" by (simp_all add: q_def r_def)
  from r have "16 * q + r + (16 - r) = 16 * (q + 1)" by simp
  then have "(16 * q + r + (16 - r)) mod 16 = 0" by (simp only: mod_mult_self1_is_0)
  then have "(n + (16 - r)) mod 16 = 0" by (simp only: n)
  moreover from False r have "(16 - r) mod 16 = 16 - r" by (simp add: r_def)
  ultimately show ?thesis by (simp add: r_def)
qed

lemma length_slices:
  "length (slice_to_neg xs k) = (if k = 0 then 0 else length xs - k)"
  "length (slice_from_neg xs k) = (if k = 0 then length xs else min k (length xs))"
  "length (slice_neg_neg xs j k) = (length xs - k) - (length xs - j)"
  by (auto simp: slice_to_neg_def slice_from_neg_def slice_neg_neg_def)

lemma basic_encrypt_length:
  assumes "basic_encrypt P key plaintext = Inr ctext"
  shows "length ctext = length plaintext" and "16 \<le> length plaintext"
proof -
  let ?n = "length plaintext"
  let ?pad = "(16 - ?n mod 16) mod 16"
  let ?padded = "plaintext @ replicate ?pad 0"
  let ?c = "cbc_blocks (aes_encrypt_block P (contents key)) (replicate 16 0) ?padded"
  from assms show n16: "16 \<le> ?n"
    by (auto simp: basic_encrypt_def split: if_splits)
  have pm: "length ?padded mod 16 = 0" by (simp add: padded_length_mod)
  then have lc: "length ?c = ?n + ?pad" by (simp add: length_cbc_blocks)
  from assms n16 pm have res:
    "ctext = (if 16 < ?n
       then slice_to_neg ?c 32 @ slice_from_neg ?c 16
            @ take (if ?n mod 16 \<noteq> 0 then ?n mod 16 else 16) (slice_neg_neg ?c 32 16)
       else ?c)"
    by (auto simp: basic_encrypt_def bind_err_Inr_iff zeropad_16 cbc_encrypt_def Let_def
             split: if_splits)
  show "length ctext = ?n"
  proof (cases "16 < ?n")
    case False
    with n16 have "?n = 16" by simp
    then show ?thesis using res lc by simp
  next
    case True
    show ?thesis
    proof (cases "?n mod 16 = 0")
      case z: True
      from z obtain k where k: "?n = 16 * k" by (auto simp: mod_eq_0_iff_dvd)
      with True have "2 \<le> k" by simp
      with k have "32 \<le> ?n" by simp
      with True z res lc show ?thesis
        by (simp add: slice_to_neg_def slice_from_neg_def slice_neg_neg_def)
    next
      case nz: False
      define r where "r = ?n mod 16"
      define L where "L = length ?c"
      have r: "0 < r" "r < 16" using nz by (simp_all add: r_def)
      have b: "16 + r \<le> ?n" using mod_16_bounds [OF n16] by (simp add: r_def)
      have L: "L = ?n + (16 - r)" using lc nz r by (simp add: L_def r_def)
      from True nz res have "ctext = slice_to_neg ?c 32 @ slice_from_neg ?c 16
            @ take r (slice_neg_neg ?c 32 16)"
        by (simp add: r_def)
      then have "length ctext = (L - 32) + min 16 L + min r ((L - 16) - (L - 32))"
        by (simp add: length_slices L_def min.commute)
      also have "\<dots> = ?n" using L r b by simp
      finally show ?thesis .
    qed
  qed
qed

section \<open>Key derivation, encryption and checksum of the simplified profile\<close>

text \<open>
  The loop of \<^verbatim>\<open>derive\<close>:
  \<^verbatim>\<open>while len(rndseed) < cls.seedsize: ciphertext = cls.basic_encrypt(key, plaintext);
  rndseed += ciphertext; plaintext = ciphertext\<close>.
  Each round that does not raise adds at least 16 bytes, so the loop ends.
\<close>

function derive_loop ::
  "primitives \<Rightarrow> enctype_profile \<Rightarrow> Key \<Rightarrow> bytes \<Rightarrow> bytes \<Rightarrow> error + bytes" where
  "derive_loop P cls key rndseed plaintext =
     (if length rndseed < seedsize cls
      then (case basic_encrypt P key plaintext of
              Inl e \<Rightarrow> Inl e
            | Inr ciphertext \<Rightarrow> derive_loop P cls key (rndseed @ ciphertext) ciphertext)
      else Inr rndseed)"
  by pat_completeness auto
termination derive_loop
proof (relation "measure (\<lambda>(P, cls, key, rndseed, plaintext). seedsize cls - length rndseed)")
  show "wf (measure (\<lambda>(P, cls, key, rndseed, plaintext). seedsize cls - length rndseed))"
    by simp
next
  fix P :: primitives and cls :: enctype_profile and key :: Key
    and rndseed plaintext ciphertext :: bytes
  assume "length rndseed < seedsize cls" and e: "basic_encrypt P key plaintext = Inr ciphertext"
  have "length ciphertext = length plaintext" and "16 \<le> length plaintext"
    by (rule basic_encrypt_length [OF e])+
  then have "0 < length ciphertext" by linarith
  with \<open>length rndseed < seedsize cls\<close>
  have "seedsize cls - (length rndseed + length ciphertext) < seedsize cls - length rndseed"
    by linarith
  then show "((P, cls, key, rndseed @ ciphertext, ciphertext), (P, cls, key, rndseed, plaintext))
      \<in> measure (\<lambda>(P, cls, key, rndseed, plaintext). seedsize cls - length rndseed)"
    by simp
qed

declare derive_loop.simps [simp del]

definition derive :: "primitives \<Rightarrow> enctype_profile \<Rightarrow> Key \<Rightarrow> bytes \<Rightarrow> error + Key" where
  "derive P cls key constant =
     bind_err (nfold constant (blocksize cls)) (\<lambda>plaintext.
     bind_err (derive_loop P cls key [] plaintext) (\<lambda>rndseed.
       Inr (Enctype_random_to_key cls (take (seedsize cls) rndseed))))"

text \<open>
  \<^verbatim>\<open>_SimplifiedEnctype.encrypt\<close>. The confounder is optional: \<^verbatim>\<open>None\<close> draws
  \<^verbatim>\<open>cls.blocksize\<close> random bytes.
\<close>

definition SimplifiedEnctype_encrypt ::
  "primitives \<Rightarrow> enctype_profile \<Rightarrow> Key \<Rightarrow> int \<Rightarrow> bytes \<Rightarrow> bytes option \<Rightarrow> error + bytes" where
  "SimplifiedEnctype_encrypt P cls key keyusage plaintext confounder =
     bind_err (pack_IB keyusage 0x55) (\<lambda>ci.
     bind_err (derive P cls key ci) (\<lambda>ki.
     bind_err (pack_IB keyusage 0xAA) (\<lambda>ce.
     bind_err (derive P cls key ce) (\<lambda>ke.
     let confounder' = (case confounder of None \<Rightarrow> get_random_bytes P (blocksize cls) | Some c \<Rightarrow> c) in
     bind_err (zeropad plaintext (padsize cls)) (\<lambda>padded.
     let basic_plaintext = confounder' @ padded;
         hmac = hmac_digest P (contents ki) basic_plaintext in
     bind_err (basic_encrypt P ke basic_plaintext) (\<lambda>c.
       Inr (c @ take (macsize cls) hmac)))))))"

definition SimplifiedEnctype_decrypt ::
  "primitives \<Rightarrow> enctype_profile \<Rightarrow> Key \<Rightarrow> int \<Rightarrow> bytes \<Rightarrow> error + bytes" where
  "SimplifiedEnctype_decrypt P cls key keyusage ciphertext =
     bind_err (pack_IB keyusage 0x55) (\<lambda>ci.
     bind_err (derive P cls key ci) (\<lambda>ki.
     bind_err (pack_IB keyusage 0xAA) (\<lambda>ce.
     bind_err (derive P cls key ce) (\<lambda>ke.
     if length ciphertext < blocksize cls + macsize cls then Inl Ciphertext_too_short
     else
       let basic_ctext = slice_to_neg ciphertext (macsize cls);
           mac = slice_from_neg ciphertext (macsize cls) in
       if padsize cls = 0 then Inl Zero_division
       else if length basic_ctext mod padsize cls \<noteq> 0 then Inl Padding_requirement
       else
         bind_err (basic_decrypt P ke basic_ctext) (\<lambda>basic_plaintext.
         let hmac = hmac_digest P (contents ki) basic_plaintext;
             expmac = take (macsize cls) hmac in
         bind_err (mac_equal mac expmac) (\<lambda>same.
           if \<not> same then Inl Ciphertext_integrity_failure
           else Inr (drop (blocksize cls) basic_plaintext)))))))"

text \<open>
  \<^verbatim>\<open>_AESEnctype.string_to_key\<close>. \<^verbatim>\<open>params or '\x00\x00\x10\x00'\<close> takes the default for
  \<^verbatim>\<open>None\<close> and for the empty string.
\<close>

definition AESEnctype_string_to_key ::
  "primitives \<Rightarrow> enctype_profile \<Rightarrow> bytes \<Rightarrow> bytes \<Rightarrow> bytes option \<Rightarrow> error + Key" where
  "AESEnctype_string_to_key P cls string salt params =
     bind_err (unpack_L (case params of None \<Rightarrow> [0x00, 0x00, 0x10, 0x00]
                         | Some p \<Rightarrow> if p = [] then [0x00, 0x00, 0x10, 0x00] else p))
       (\<lambda>iterations.
     let seed = pbkdf2_hmac_sha1 P string salt (seedsize cls) iterations;
         tkey = Enctype_random_to_key cls seed
     in derive P cls tkey (map (of_nat \<circ> of_char) ''kerberos''))"

definition SimplifiedChecksum_checksum ::
  "primitives \<Rightarrow> checksum_profile \<Rightarrow> Key \<Rightarrow> int \<Rightarrow> bytes \<Rightarrow> error + bytes" where
  "SimplifiedChecksum_checksum P cls key keyusage text =
     bind_err (pack_IB keyusage 0x99) (\<lambda>c.
     bind_err (derive P (enc cls) key c) (\<lambda>kc.
     let hmac = hmac_digest P (contents kc) text
     in Inr (take (cksum_macsize cls) hmac)))"

definition SimplifiedChecksum_verify ::
  "primitives \<Rightarrow> checksum_profile \<Rightarrow> Key \<Rightarrow> int \<Rightarrow> bytes \<Rightarrow> bytes \<Rightarrow> error + unit" where
  "SimplifiedChecksum_verify P cls key keyusage text cksum =
     bind_err (SimplifiedChecksum_checksum P cls key keyusage text) (\<lambda>expected.
     bind_err (mac_equal cksum expected) (\<lambda>same.
       if \<not> same then Inl Checksum_verification_failure else Inr ()))"

section \<open>The public functions of the module\<close>

definition random_to_key :: "int \<Rightarrow> bytes \<Rightarrow> error + Key" where
  "random_to_key etype seed =
     bind_err (get_enctype_profile etype) (\<lambda>e.
       if length seed \<noteq> seedsize e then Inl Wrong_crypto_seed_length
       else Inr (Enctype_random_to_key e seed))"

definition string_to_key ::
  "primitives \<Rightarrow> int \<Rightarrow> bytes \<Rightarrow> bytes \<Rightarrow> bytes option \<Rightarrow> error + Key" where
  "string_to_key P etype string salt params =
     bind_err (get_enctype_profile etype) (\<lambda>e. AESEnctype_string_to_key P e string salt params)"

definition encrypt ::
  "primitives \<Rightarrow> Key \<Rightarrow> int \<Rightarrow> bytes \<Rightarrow> bytes option \<Rightarrow> error + bytes" where
  "encrypt P key keyusage plaintext confounder =
     bind_err (get_enctype_profile (enctype key)) (\<lambda>e.
       SimplifiedEnctype_encrypt P e key keyusage plaintext confounder)"

definition decrypt :: "primitives \<Rightarrow> Key \<Rightarrow> int \<Rightarrow> bytes \<Rightarrow> error + bytes" where
  "decrypt P key keyusage ciphertext =
     bind_err (get_enctype_profile (enctype key)) (\<lambda>e.
       SimplifiedEnctype_decrypt P e key keyusage ciphertext)"

definition make_checksum :: "primitives \<Rightarrow> int \<Rightarrow> Key \<Rightarrow> int \<Rightarrow> bytes \<Rightarrow> error + bytes" where
  "make_checksum P cksumtype key keyusage text =
     bind_err (get_checksum_profile cksumtype) (\<lambda>c.
       SimplifiedChecksum_checksum P c key keyusage text)"

definition verify_checksum ::
  "primitives \<Rightarrow> int \<Rightarrow> Key \<Rightarrow> int \<Rightarrow> bytes \<Rightarrow> bytes \<Rightarrow> error + unit" where
  "verify_checksum P cksumtype key keyusage text cksum =
     bind_err (get_checksum_profile cksumtype) (\<lambda>c.
       SimplifiedChecksum_verify P c key keyusage text cksum)"

section \<open>n-fold returns a string of the requested length\<close>

lemma ord_less_256: "ord a < 256"
  using unsigned_less [of a, where ?'a = nat] by (simp add: ord_def)

lemma py_index_total:
  assumes "- int (length xs) \<le> i" and "i < int (length xs)"
  shows "\<exists>x. py_index xs i = Inr x"
  using assms by (auto simp: py_index_def)

lemma rotate_right_total:
  assumes "str \<noteq> []"
  shows "\<exists>r. rotate_right str nbits = Inr r \<and> length r = length str"
proof -
  let ?nb = "(nbits div 8) mod length str"
  let ?rem = "nbits mod 8"
  let ?f = "\<lambda>i. bind_err (py_index str (int i - int ?nb)) (\<lambda>a.
             bind_err (py_index str (int i - int ?nb - 1)) (\<lambda>b.
               chr (drop_bit ?rem (ord a) OR (push_bit (8 - ?rem) (ord b) AND 255))))"
  from assms have nb: "?nb < length str" by simp
  have "\<exists>y. ?f i = Inr y" if "i \<in> set [0..<length str]" for i
  proof -
    from that have i: "i < length str" by simp
    from i nb have "- int (length str) \<le> int i - int ?nb" "int i - int ?nb < int (length str)"
      by linarith+
    from py_index_total [OF this] obtain a where a: "py_index str (int i - int ?nb) = Inr a"
      by blast
    from i nb have "- int (length str) \<le> int i - int ?nb - 1"
      "int i - int ?nb - 1 < int (length str)"
      by linarith+
    from py_index_total [OF this] obtain b where b: "py_index str (int i - int ?nb - 1) = Inr b"
      by blast
    have "drop_bit ?rem (ord a) \<le> ord a" by (simp add: drop_bit_eq_div)
    then have "drop_bit ?rem (ord a) < 256" using ord_less_256 [of a] by simp
    moreover have "push_bit (8 - ?rem) (ord b) AND 255 < 256" by (simp add: and_255)
    ultimately have "drop_bit ?rem (ord a) OR (push_bit (8 - ?rem) (ord b) AND 255) < 256"
      by (rule or_less_256)
    then show ?thesis by (simp add: a b chr_def)
  qed
  then obtain r where r: "mapM_err ?f [0..<length str] = Inr r"
    using mapM_err_total [of "[0..<length str]" ?f] by blast
  then have "length r = length str" using mapM_err_nth(1) [OF r] by simp
  with r assms show ?thesis by (simp add: rotate_right_def Let_def)
qed

lemma carry_step_total:
  assumes "length v = n"
  shows "\<exists>v'. carry_step n v = Inr v' \<and> length v' = n"
proof -
  let ?f = "\<lambda>i. bind_err (py_index v (int i - int n + 1)) (\<lambda>hi.
       bind_err (py_index v (int i)) (\<lambda>lo. Inr (drop_bit 8 hi + (lo AND 255))))"
  have "\<exists>y. ?f i = Inr y" if "i \<in> set [0..<n]" for i
  proof -
    from that have i: "i < n" by simp
    from i assms have "- int (length v) \<le> int i - int n + 1" "int i - int n + 1 < int (length v)"
      by linarith+
    from py_index_total [OF this] obtain hi where "py_index v (int i - int n + 1) = Inr hi"
      by blast
    moreover from i assms have "- int (length v) \<le> int i" "int i < int (length v)"
      by linarith+
    from py_index_total [OF this] obtain lo where "py_index v (int i) = Inr lo"
      by blast
    ultimately show ?thesis by simp
  qed
  then obtain v' where v': "mapM_err ?f [0..<n] = Inr v'"
    using mapM_err_total [of "[0..<n]" ?f] by blast
  then have "carry_step n v = Inr v'" by (simp add: carry_step_def)
  then show ?thesis using carry_step_nth(1) by blast
qed

lemma carry_loop_total:
  assumes "length v = n"
  shows "\<exists>w. carry_loop n v = Inr w \<and> length w = n \<and> \<not> has_carry w"
  using assms
proof (induction n v rule: carry_loop.induct)
  case (1 n v)
  show ?case
  proof (cases "has_carry v")
    case False
    with "1.prems" show ?thesis by (simp add: carry_loop.simps [of n v])
  next
    case True
    from carry_step_total [OF "1.prems"] obtain v' where
      v': "carry_step n v = Inr v'" "length v' = n" by blast
    from "1.IH" [OF True v'] obtain w where
      "carry_loop n v' = Inr w" "length w = n" "\<not> has_carry w" by blast
    with True v' show ?thesis by (simp add: carry_loop.simps [of n v])
  qed
qed

lemma add_ones_complement_total:
  assumes "length str1 = n" and "length str2 = n"
  shows "\<exists>r. add_ones_complement str1 str2 = Inr r \<and> length r = n"
proof -
  let ?v = "map (\<lambda>(a, b). ord a + ord b) (zip str1 str2)"
  from assms have "length ?v = n" by simp
  from carry_loop_total [OF this] obtain w where
    w: "carry_loop n ?v = Inr w" "length w = n" "\<not> has_carry w" by blast
  from w(3) have "\<exists>y. chr x = Inr y" if "x \<in> set w" for x
    using that by (auto simp: has_carry_iff chr_def not_le)
  then obtain r where r: "mapM_err chr w = Inr r"
    using mapM_err_total [of w chr] by blast
  then have "length r = n" using mapM_err_nth(1) [OF r] w(2) by simp
  with w(1) r assms(1) show ?thesis by (simp add: add_ones_complement_def Let_def)
qed

lemma foldM_add_ones_complement_total:
  assumes "length acc = n" and "\<forall>s\<in>set slices. length s = n"
  shows "\<exists>r. foldM_err add_ones_complement acc slices = Inr r \<and> length r = n"
  using assms
proof (induction slices arbitrary: acc)
  case Nil
  then show ?case by simp
next
  case (Cons s slices)
  from Cons.prems have "length s = n" by simp
  from add_ones_complement_total [OF Cons.prems(1) this] obtain acc' where
    a: "add_ones_complement acc s = Inr acc'" "length acc' = n" by blast
  from Cons.IH [OF a(2)] Cons.prems(2) obtain r where
    "foldM_err add_ones_complement acc' slices = Inr r" "length r = n" by auto
  with a show ?case by simp
qed

lemma nfold_total:
  assumes s: "str \<noteq> []" and n: "0 < nbytes"
  shows "\<exists>r. nfold str nbytes = Inr r \<and> length r = nbytes"
proof -
  let ?slen = "length str"
  define g where "g = gcd nbytes ?slen"
  define l where "l = nbytes * ?slen div g"
  from s have slen: "0 < ?slen" by simp
  have g: "0 < g" using n by (simp add: g_def)
  from gcd_dvd1 [of nbytes ?slen] obtain a where a: "nbytes = g * a"
    unfolding g_def by (rule dvdE)
  from gcd_dvd2 [of nbytes ?slen] obtain b where b: "?slen = g * b"
    unfolding g_def by (rule dvdE)
  have l_a: "l = ?slen * a"
  proof -
    have "nbytes * ?slen = g * (?slen * a)" by (subst a) simp
    then have "l = g * (?slen * a) div g" by (simp only: l_def)
    also have "\<dots> = ?slen * a" using g by (intro nonzero_mult_div_cancel_left) simp
    finally show ?thesis .
  qed
  have l_b: "l = nbytes * b"
  proof -
    have "nbytes * ?slen = g * (nbytes * b)" by (subst b) simp
    then have "l = g * (nbytes * b) div g" by (simp only: l_def)
    also have "\<dots> = nbytes * b" using g by (intro nonzero_mult_div_cancel_left) simp
    finally show ?thesis .
  qed
  from a n have a0: "0 < a" by (cases a) auto
  from b slen have b0: "0 < b" by (cases b) auto
  have "\<exists>y. rotate_right str (13 * i) = Inr y" for i
    using rotate_right_total [OF s] by blast
  then obtain copies where c: "mapM_err (\<lambda>i. rotate_right str (13 * i)) [0..<l div ?slen] = Inr copies"
    using mapM_err_total [of "[0..<l div ?slen]" "\<lambda>i. rotate_right str (13 * i)"] by blast
  have lc: "length copies = a" using mapM_err_nth(1) [OF c] slen by (simp add: l_a)
  have "length (copies ! i) = ?slen" if "i < a" for i
  proof -
    from that mapM_err_nth(2) [OF c, of i] slen
    have "rotate_right str (13 * i) = Inr (copies ! i)" by (simp add: l_a)
    with rotate_right_total [OF s, of "13 * i"] show ?thesis by auto
  qed
  then have "\<forall>x\<in>set copies. length x = ?slen"
    using lc by (auto simp: in_set_conv_nth)
  then have "map length copies = map (\<lambda>_. ?slen) copies"
    by (intro map_cong) auto
  then have "map length copies = replicate a ?slen"
    by (simp add: map_replicate_const lc)
  then have lbig: "length (concat copies) = l"
    by (simp add: length_concat sum_list_replicate l_a)
  have xr: "xrange 0 l nbytes = map (\<lambda>k. k * nbytes) [0..<b]"
  proof -
    have "(nbytes * b + nbytes - 1) div nbytes = b"
      using n by (simp add: div_nat_eqI)
    then show ?thesis by (simp add: xrange_def l_b)
  qed
  let ?slices = "map (\<lambda>p. take nbytes (drop p (concat copies))) (xrange 0 l nbytes)"
  have sl: "\<forall>x\<in>set ?slices. length x = nbytes"
  proof -
    have bound: "k * nbytes + nbytes \<le> l" if "k < b" for k
    proof -
      from that have "Suc k \<le> b" by simp
      then have "Suc k * nbytes \<le> b * nbytes" by (rule mult_le_mono1)
      then show ?thesis by (simp add: l_b mult.commute)
    qed
    have "min (l - k * nbytes) nbytes = nbytes" if "k < b" for k
    proof -
      from that have "k * nbytes + nbytes \<le> l" by (rule bound)
      then show ?thesis by (auto simp: min_def)
    qed
    then show ?thesis by (auto simp: xr lbig)
  qed
  have "?slices \<noteq> []" using b0 by (simp add: xr)
  then obtain x rest where xs: "?slices = x # rest"
    by (cases ?slices) auto
  with sl have "length x = nbytes" "\<forall>s\<in>set rest. length s = nbytes" by auto
  from foldM_add_ones_complement_total [OF this] obtain r where
    r: "foldM_err add_ones_complement x rest = Inr r" "length r = nbytes" by blast
  have "nfold str nbytes = reduce add_ones_complement ?slices"
    using slen n g c by (simp add: nfold_def Let_def g_def [symmetric] l_def [symmetric])
  with xs r show ?thesis by (simp add: reduce_def)
qed

section \<open>Facts about the byte-wise helpers\<close>

lemma mapM_err_map:
  assumes "\<And>x. x \<in> set xs \<Longrightarrow> f x = Inr (g x)"
  shows "mapM_err f xs = Inr (map g xs)"
  using assms by (induction xs) simp_all

lemma chr_xor: "chr (ord x XOR ord y) = Inr (x XOR y)"
proof -
  have "ord x XOR ord y = ord (x XOR y)" by (simp add: ord_def unsigned_xor_eq)
  then show ?thesis by (simp only: chr_ord)
qed

lemma xorbytes_eq:
  assumes "length b1 = length b2"
  shows "xorbytes b1 b2 = Inr (map2 (XOR) b1 b2)"
proof -
  have "mapM_err (\<lambda>(x, y). chr (ord x XOR ord y)) (zip b1 b2)
      = Inr (map (\<lambda>(x, y). x XOR y) (zip b1 b2))"
    by (rule mapM_err_map) (auto simp: chr_xor)
  with assms show ?thesis by (simp add: xorbytes_def)
qed

lemma word_xor_eq_0_iff: "(x::byte) XOR y = 0 \<longleftrightarrow> x = y"
  by (auto simp: bit_eq_iff bit_xor_iff)

lemma ord_xor_eq_0_iff: "ord x XOR ord y = 0 \<longleftrightarrow> x = y"
proof -
  have "ord x XOR ord y = ord (x XOR y)" by (simp add: ord_def unsigned_xor_eq)
  then show ?thesis by (simp add: ord_def unsigned_eq_0_iff word_xor_eq_0_iff)
qed

lemma mac_fold_eq_0_iff:
  assumes "length mac1 = length mac2"
  shows "foldl (\<lambda>res (x, y). res OR (ord x XOR ord y)) acc (zip mac1 mac2) = 0
     \<longleftrightarrow> acc = 0 \<and> mac1 = mac2"
  using assms
proof (induction mac1 mac2 arbitrary: acc rule: list_induct2)
  case Nil
  then show ?case by simp
next
  case (Cons x xs y ys)
  then show ?case by (auto simp: or_eq_0_iff ord_xor_eq_0_iff)
qed

lemma mac_equal_eq:
  assumes "length mac1 = length mac2"
  shows "mac_equal mac1 mac2 = Inr (mac1 = mac2)"
  using assms mac_fold_eq_0_iff [OF assms, of 0] by (simp add: mac_equal_def)

lemma map2_xor_zeros:
  assumes "length (b::bytes) = n"
  shows "map2 (XOR) b (replicate n 0) = b"
  using assms by (induction b arbitrary: n) auto

section \<open>Key derivation returns a key of the seed size\<close>

lemma AES_new_ok: "length k \<in> {16, 24, 32} \<Longrightarrow> AES_new k = Inr ()"
  by (simp add: AES_new_def)

lemma basic_encrypt_total:
  assumes "length (contents key) \<in> {16, 24, 32}" and "16 \<le> length plaintext"
  shows "\<exists>c. basic_encrypt P key plaintext = Inr c"
  using assms
  by (simp add: basic_encrypt_def AES_new_def zeropad_16 cbc_encrypt_def padded_length_mod Let_def)

lemma derive_loop_total:
  assumes "length (contents key) \<in> {16, 24, 32}" and "16 \<le> length plaintext"
  shows "\<exists>r. derive_loop P cls key rndseed plaintext = Inr r \<and> seedsize cls \<le> length r"
  using assms
proof (induction P cls key rndseed plaintext rule: derive_loop.induct)
  case (1 P cls key rndseed plaintext)
  show ?case
  proof (cases "length rndseed < seedsize cls")
    case False
    then show ?thesis by (simp add: derive_loop.simps [of P cls key rndseed plaintext])
  next
    case True
    from basic_encrypt_total [OF "1.prems"] obtain c where
      c: "basic_encrypt P key plaintext = Inr c" by blast
    then have "length c = length plaintext" by (rule basic_encrypt_length)
    with "1.prems" have "16 \<le> length c" by simp
    from "1.IH" [OF True c "1.prems"(1) this] obtain r where
      "derive_loop P cls key (rndseed @ c) c = Inr r" "seedsize cls \<le> length r" by blast
    with True c show ?thesis by (simp add: derive_loop.simps [of P cls key rndseed plaintext])
  qed
qed

lemma derive_total:
  assumes "length (contents key) \<in> {16, 24, 32}" and "constant \<noteq> []" and "blocksize cls = 16"
  shows "\<exists>k. derive P cls key constant = Inr k \<and> length (contents k) = seedsize cls
            \<and> enctype k = cls_enctype cls"
proof -
  from nfold_total [OF assms(2), of 16] obtain p where
    p: "nfold constant 16 = Inr p" "length p = 16" by auto
  then have "16 \<le> length p" by simp
  from derive_loop_total [OF assms(1) this, of P cls "[]"] obtain r where
    r: "derive_loop P cls key [] p = Inr r" "seedsize cls \<le> length r" by blast
  with p assms(3) show ?thesis
    by (simp add: derive_def Enctype_random_to_key_def)
qed

text \<open>Nothing in the derivation reads the algorithm tag of the base key.\<close>

lemma basic_encrypt_contents:
  "contents k1 = contents k2 \<Longrightarrow> basic_encrypt P k1 plaintext = basic_encrypt P k2 plaintext"
  by (simp add: basic_encrypt_def)

lemma derive_loop_contents:
  assumes "contents k1 = contents k2"
  shows "derive_loop P cls k1 rndseed plaintext = derive_loop P cls k2 rndseed plaintext"
  using assms
proof (induction P cls k1 rndseed plaintext rule: derive_loop.induct)
  case (1 P cls k1 rndseed plaintext)
  show ?case
  proof (cases "length rndseed < seedsize cls")
    case False
    then show ?thesis
      by (simp add: derive_loop.simps [of P cls k1 rndseed plaintext]
                    derive_loop.simps [of P cls k2 rndseed plaintext])
  next
    case True
    note e = basic_encrypt_contents [OF "1.prems", of P plaintext]
    show ?thesis
    proof (cases "basic_encrypt P k1 plaintext")
      case (Inl err)
      with e have "basic_encrypt P k2 plaintext = Inl err" by simp
      with True Inl show ?thesis
        by (simp add: derive_loop.simps [of P cls k1 rndseed plaintext]
                      derive_loop.simps [of P cls k2 rndseed plaintext])
    next
      case (Inr c)
      with e have "basic_encrypt P k2 plaintext = Inr c" by simp
      with "1.IH" [OF True Inr "1.prems"] True Inr show ?thesis
        by (simp add: derive_loop.simps [of P cls k1 rndseed plaintext]
                      derive_loop.simps [of P cls k2 rndseed plaintext])
    qed
  qed
qed

lemma derive_contents:
  "contents k1 = contents k2 \<Longrightarrow> derive P cls k1 constant = derive P cls k2 constant"
  by (simp add: derive_def derive_loop_contents [of k1 k2])

lemma pack_IB_ok:
  assumes "0 \<le> n" and "n < 2 ^ 32" and "0 \<le> b" and "b < 256"
  shows "\<exists>c. pack_IB n b = Inr c \<and> c \<noteq> []"
  using assms by (simp add: pack_IB_def)

lemma get_checksum_profile_cases:
  "get_checksum_profile SHA1_AES128 = Inr SHA1AES128"
  "get_checksum_profile SHA1_AES256 = Inr SHA1AES256"
  by (simp_all add: get_checksum_profile_def checksum_table_def SHA1_AES128_def SHA1_AES256_def)

lemma get_enctype_profile_cases:
  "get_enctype_profile AES128_CTS = Inr AES128CTS"
  "get_enctype_profile AES256_CTS = Inr AES256CTS"
  by (simp_all add: get_enctype_profile_def enctype_table_def AES128_CTS_def AES256_CTS_def)

lemma profile_simps [simp]:
  "blocksize AES128CTS = 16" "padsize AES128CTS = 1" "macsize AES128CTS = 12"
  "seedsize AES128CTS = 16" "cls_enctype AES128CTS = AES256_CTS"
  "blocksize AES256CTS = 16" "padsize AES256CTS = 1" "macsize AES256CTS = 12"
  "seedsize AES256CTS = 32" "cls_enctype AES256CTS = AES256_CTS"
  by (simp_all add: AES128CTS_def AES256CTS_def AESEnctype_def)

section \<open>A concrete instance of the primitives\<close>

text \<open>
  A toy block cipher (every byte of the block is moved by the first key byte and the
  block is reversed), a toy keyed digest and a toy key-stretching function. They stand
  in for the PyCrypto primitives where a theorem is applied to concrete inputs.
\<close>

definition toy_primitives :: primitives where
  "toy_primitives =
     \<lparr>aes_encrypt_block = (\<lambda>k b. Abs_block (rev (map (\<lambda>x. x + hd k) (Rep_block b)))),
      aes_decrypt_block = (\<lambda>k b. Abs_block (map (\<lambda>x. x - hd k) (rev (Rep_block b)))),
      hmac_sha1 = (\<lambda>k m. Abs_sha1_digest (take 20 (k @ m @ replicate 20 7))),
      pbkdf2_hmac_sha1 = (\<lambda>p s n c. take n (p @ s @ replicate n (of_nat c))),
      get_random_bytes = (\<lambda>n. replicate n 42)\<rparr>"

lemma toy_cipher_inverse:
  "aes_decrypt_block toy_primitives k (aes_encrypt_block toy_primitives k b) = b"
  by (simp add: toy_primitives_def rev_map [symmetric] o_def)

section \<open>Algorithm tags\<close>

text \<open>
  Claim C3, evaluated on the source. \<^verbatim>\<open>random_to_key(17, seed)\<close> looks up \<^verbatim>\<open>_AES128CTS\<close>
  and returns \<^verbatim>\<open>Key(cls.enctype, seed)\<close>; \<^verbatim>\<open>_AES128CTS\<close> inherits
  \<^verbatim>\<open>enctype = Enctypenum.AES256_CTS\<close> from \<^verbatim>\<open>_AESEnctype\<close>, so the key is tagged 18, not
  the 17 that was asked for.
\<close>

theorem random_to_key_AES128_tag:
  "random_to_key AES128_CTS (replicate 16 0) = Inr \<lparr>enctype = 18, contents = replicate 16 0\<rparr>
   \<and> AES128_CTS = 17"
  by (simp add: random_to_key_def get_enctype_profile_def enctype_table_def
        Enctype_random_to_key_def AES256_CTS_def AES128_CTS_def)

text \<open>
  Claim C10. The checksum functions never read the algorithm tag of the key: two keys
  with the same contents give the same result of \<open>make_checksum\<close> and of
  \<open>verify_checksum\<close>, whatever their tags, the checksum type, the usage and the text.
  The profile comes from the checksum type alone, and a key whose contents are a valid
  AES key is accepted under either supported checksum type whatever its tag: a MAC of
  12 bytes is returned.
\<close>

theorem make_checksum_ignores_key_enctype:
  "(contents k1 = contents k2 \<longrightarrow>
      make_checksum P cksumtype k1 keyusage text = make_checksum P cksumtype k2 keyusage text
    \<and> verify_checksum P cksumtype k1 keyusage text cksum
        = verify_checksum P cksumtype k2 keyusage text cksum)
   \<and> (cksumtype \<in> {SHA1_AES128, SHA1_AES256} \<and> length (contents k1) \<in> {16, 24, 32}
        \<and> 0 \<le> keyusage \<and> keyusage < 2 ^ 32 \<longrightarrow>
      (\<exists>mac. make_checksum P cksumtype k1 keyusage text = Inr mac \<and> length mac = 12))"
proof (intro conjI impI)
  assume c: "contents k1 = contents k2"
  have s: "SimplifiedChecksum_checksum P cls k1 keyusage text
         = SimplifiedChecksum_checksum P cls k2 keyusage text" for cls
    by (simp add: SimplifiedChecksum_checksum_def derive_contents [OF c])
  then show "make_checksum P cksumtype k1 keyusage text = make_checksum P cksumtype k2 keyusage text"
    by (simp add: make_checksum_def)
  from s show "verify_checksum P cksumtype k1 keyusage text cksum
        = verify_checksum P cksumtype k2 keyusage text cksum"
    by (simp add: verify_checksum_def SimplifiedChecksum_verify_def)
next
  assume a: "cksumtype \<in> {SHA1_AES128, SHA1_AES256} \<and> length (contents k1) \<in> {16, 24, 32}
        \<and> 0 \<le> keyusage \<and> keyusage < 2 ^ 32"
  then obtain cls where cls: "get_checksum_profile cksumtype = Inr cls"
    "cksum_macsize cls = 12" "blocksize (enc cls) = 16"
    by (auto simp: get_checksum_profile_cases SHA1AES128_def SHA1AES256_def)
  from a pack_IB_ok [of keyusage "0x99"] obtain c where
    c: "pack_IB keyusage 0x99 = Inr c" "c \<noteq> []" by auto
  from a derive_total [OF _ c(2) cls(3), of k1 P] obtain kc where
    "derive P (enc cls) k1 c = Inr kc" by blast
  with cls c show "\<exists>mac. make_checksum P cksumtype k1 keyusage text = Inr mac \<and> length mac = 12"
    by (simp add: make_checksum_def SimplifiedChecksum_checksum_def hmac_digest_def)
qed

theorem make_checksum_ignores_key_enctype_witness:
  "make_checksum toy_primitives SHA1_AES256 \<lparr>enctype = 17, contents = replicate 16 1\<rparr> 3 [1, 2]
     = make_checksum toy_primitives SHA1_AES256 \<lparr>enctype = 18, contents = replicate 16 1\<rparr> 3 [1, 2]
   \<and> verify_checksum toy_primitives SHA1_AES256 \<lparr>enctype = 17, contents = replicate 16 1\<rparr> 3 [1, 2] [0]
     = verify_checksum toy_primitives SHA1_AES256 \<lparr>enctype = 18, contents = replicate 16 1\<rparr> 3 [1, 2] [0]
   \<and> (\<exists>mac. make_checksum toy_primitives SHA1_AES256 \<lparr>enctype = 17, contents = replicate 16 1\<rparr> 3 [1, 2]
        = Inr mac \<and> length mac = 12)"
proof -
  let ?k1 = "\<lparr>enctype = 17, contents = replicate 16 1\<rparr>"
  let ?k2 = "\<lparr>enctype = 18, contents = replicate 16 1\<rparr>"
  have h1: "contents ?k1 = contents ?k2" by simp
  have h2: "SHA1_AES256 \<in> {SHA1_AES128, SHA1_AES256} \<and> length (contents ?k1) \<in> {16, 24, 32}
        \<and> (0::int) \<le> 3 \<and> (3::int) < 2 ^ 32" by simp
  from make_checksum_ignores_key_enctype [of ?k1 ?k2 toy_primitives SHA1_AES256 3 "[1, 2]" "[0]"]
    h1 h2 show ?thesis by blast
qed

section \<open>Ciphertext stealing: decryption inverts encryption\<close>

text \<open>Induction over a string of whole blocks, one block at a time.\<close>

lemma aligned_nonempty:
  assumes "length xs mod 16 = 0" and "xs \<noteq> []"
  shows "16 \<le> length xs" and "length (drop 16 xs) mod 16 = 0"
proof -
  from assms(1) obtain k where k: "length xs = 16 * k" by (auto simp: mod_eq_0_iff_dvd)
  from assms(2) have "0 < length xs" by simp
  with k have "1 \<le> k" by simp
  with k show "16 \<le> length xs" by simp
  from k have "length xs - 16 = 16 * (k - 1)" by simp
  then show "length (drop 16 xs) mod 16 = 0" by simp
qed

lemma blocks_induct [consumes 1, case_names Nil Block]:
  assumes "length xs mod 16 = 0"
    and "Q []"
    and "\<And>b rest. length b = 16 \<Longrightarrow> length rest mod 16 = 0 \<Longrightarrow> Q rest \<Longrightarrow> Q (b @ rest)"
  shows "Q (xs :: 'a list)"
  using assms(1)
proof (induction xs rule: length_induct)
  case (1 xs)
  show ?case
  proof (cases "xs = []")
    case True
    with assms(2) show ?thesis by simp
  next
    case False
    note a = aligned_nonempty [OF "1.prems" False]
    from a(1) have "length (drop 16 xs) < length xs" by simp
    moreover from "1.IH" have "length (drop 16 xs) < length xs \<longrightarrow>
        length (drop 16 xs) mod 16 = 0 \<longrightarrow> Q (drop 16 xs)"
      by (rule spec)
    ultimately have q: "Q (drop 16 xs)" using a(2) by simp
    from a(1) have t: "length (take 16 xs) = 16" by simp
    from assms(3) [OF t a(2) q] show ?thesis by simp
  qed
qed

text \<open>The block list \<^verbatim>\<open>[ciphertext[p:p+16] for p in xrange(0, len(ciphertext), 16)]\<close>.\<close>

definition cblocks_of :: "bytes \<Rightarrow> bytes list" where
  "cblocks_of ciphertext =
     map (\<lambda>p. take 16 (drop p ciphertext)) (xrange 0 (length ciphertext) 16)"

lemma cblocks_of_Nil: "cblocks_of [] = []"
  by (simp add: cblocks_of_def xrange_def)

lemma cblocks_of_block:
  assumes "length b = 16"
  shows "cblocks_of (b @ rest) = b # cblocks_of rest"
proof -
  have "(16 + length rest + 16 - 1) div 16 = Suc ((length rest + 16 - 1) div 16)"
    by simp
  then have "xrange 0 (length (b @ rest)) 16
      = 0 # map (\<lambda>p. 16 + p) (xrange 0 (length rest) 16)"
    using assms by (simp add: xrange_def upt_rec [of 0] map_Suc_upt [symmetric] o_def del: upt_Suc)
  with assms show ?thesis
    by (simp add: cblocks_of_def o_def)
qed

lemma cblocks_of_short:
  assumes "0 < length c" and "length c \<le> 16"
  shows "cblocks_of c = [c]"
proof -
  from assms have "(length c + 16 - 1) div 16 = 1"
    by (intro div_nat_eqI) (simp_all add: Suc_le_eq)
  with assms show ?thesis by (simp add: cblocks_of_def xrange_def)
qed

lemma cblocks_of_append:
  assumes "length xs mod 16 = 0"
  shows "cblocks_of (xs @ ys) = cblocks_of xs @ cblocks_of ys"
  using assms by (induction xs rule: blocks_induct) (simp_all add: cblocks_of_Nil cblocks_of_block)

text \<open>The chaining value after a string of whole blocks.\<close>

fun cbc_chain :: "(block \<Rightarrow> block) \<Rightarrow> bytes \<Rightarrow> bytes \<Rightarrow> bytes" where
  "cbc_chain f iv data =
     (if data = [] then iv
      else cbc_chain f (Rep_block (f (Abs_block (map2 (XOR) (take 16 data) iv)))) (drop 16 data))"

declare cbc_chain.simps [simp del]

lemma cbc_blocks_Nil [simp]: "cbc_blocks f iv [] = []"
  by (simp add: cbc_blocks.simps)

lemma cbc_chain_Nil [simp]: "cbc_chain f iv [] = iv"
  by (simp add: cbc_chain.simps)

lemma cbc_blocks_block:
  assumes "length b = 16"
  shows "cbc_blocks f iv (b @ rest)
     = Rep_block (f (Abs_block (map2 (XOR) b iv)))
       @ cbc_blocks f (Rep_block (f (Abs_block (map2 (XOR) b iv)))) rest"
proof -
  from assms have "b \<noteq> []" by auto
  with assms show ?thesis
    by (subst cbc_blocks.simps) (simp add: Let_def)
qed

lemma cbc_chain_block:
  assumes "length b = 16"
  shows "cbc_chain f iv (b @ rest)
     = cbc_chain f (Rep_block (f (Abs_block (map2 (XOR) b iv)))) rest"
proof -
  from assms have "b \<noteq> []" by auto
  with assms show ?thesis
    by (subst cbc_chain.simps) simp
qed

lemma length_cbc_chain:
  assumes "length xs mod 16 = 0" and "length iv = 16"
  shows "length (cbc_chain f iv xs) = 16"
  using assms by (induction xs arbitrary: iv rule: blocks_induct) (simp_all add: cbc_chain_block)

lemma cbc_blocks_append:
  assumes "length xs mod 16 = 0"
  shows "cbc_blocks f iv (xs @ ys) = cbc_blocks f iv xs @ cbc_blocks f (cbc_chain f iv xs) ys"
  using assms
  by (induction xs arbitrary: iv rule: blocks_induct)
     (simp_all add: cbc_blocks_block cbc_chain_block)

lemma ecb_blocks_single:
  assumes "length c = 16"
  shows "ecb_blocks f c = Rep_block (f (Abs_block c))"
proof -
  from assms have "c \<noteq> []" by auto
  with assms show ?thesis
    by (subst ecb_blocks.simps) (simp add: ecb_blocks.simps [of f "[]"])
qed

lemma ecb_decrypt_single:
  assumes "length c = 16"
  shows "ecb_decrypt P k c = Inr (Rep_block (aes_decrypt_block P k (Abs_block c)))"
  using assms by (simp add: ecb_decrypt_def ecb_blocks_single)

lemma map2_xor_cancel:
  assumes "length (a::bytes) = length b"
  shows "map2 (XOR) (map2 (XOR) a b) b = a"
  using assms by (induction a b rule: list_induct2) (simp_all add: xor.assoc)

text \<open>
  The loop over \<^verbatim>\<open>cblocks[:-2]\<close>, run on the blocks that CBC encryption made of a string
  of whole blocks, gives that string back and leaves the chaining value in
  \<^verbatim>\<open>prev_cblock\<close>.
\<close>

lemma cbc_decrypt_loop_cbc_blocks:
  assumes "length xs mod 16 = 0" and "length iv = 16"
    and inv: "\<And>b. aes_decrypt_block P k (aes_encrypt_block P k b) = b"
  shows "cbc_decrypt_loop P k (cblocks_of (cbc_blocks (aes_encrypt_block P k) iv xs)) (pt, iv)
     = Inr (pt @ xs, cbc_chain (aes_encrypt_block P k) iv xs)"
  using assms(1,2)
proof (induction xs arbitrary: pt iv rule: blocks_induct)
  case Nil
  then show ?case by (simp add: cblocks_of_Nil)
next
  case (Block b rest)
  let ?c = "Rep_block (aes_encrypt_block P k (Abs_block (map2 (XOR) b iv)))"
  have d: "ecb_decrypt P k ?c = Inr (map2 (XOR) b iv)"
    using Block.hyps(1) Block.prems by (simp add: ecb_decrypt_single inv)
  have x: "xorbytes (map2 (XOR) b iv) iv = Inr b"
    using Block.hyps(1) Block.prems by (simp add: xorbytes_eq map2_xor_cancel)
  have "cbc_decrypt_loop P k (cblocks_of (cbc_blocks (aes_encrypt_block P k) ?c rest)) (pt @ b, ?c)
     = Inr ((pt @ b) @ rest, cbc_chain (aes_encrypt_block P k) ?c rest)"
    by (rule Block.IH) simp
  with Block.hyps(1) d x show ?case
    by (simp add: cbc_blocks_block cbc_chain_block cblocks_of_block)
qed

lemma basic_encrypt_eq:
  assumes "length (contents key) \<in> {16, 24, 32}" and "16 \<le> length plaintext"
  shows "basic_encrypt P key plaintext =
     Inr (let ctext = cbc_blocks (aes_encrypt_block P (contents key)) (replicate 16 0)
                        (plaintext @ replicate ((16 - length plaintext mod 16) mod 16) 0)
          in if 16 < length plaintext
             then slice_to_neg ctext 32 @ slice_from_neg ctext 16
                  @ take (if length plaintext mod 16 \<noteq> 0 then length plaintext mod 16 else 16)
                      (slice_neg_neg ctext 32 16)
             else ctext)"
  using assms
  by (simp add: basic_encrypt_def AES_new_def zeropad_16 cbc_encrypt_def padded_length_mod Let_def)

lemma py_index_neg:
  assumes "0 < k" and "k \<le> length xs"
  shows "py_index xs (- int k) = Inr (xs ! (length xs - k))"
proof -
  from assms have "nat (int (length xs) + - int k) = length xs - k" by linarith
  with assms show ?thesis by (simp add: py_index_def)
qed

lemma py_index_last_two:
  "py_index (xs @ [a, b]) (- 1) = Inr b"
  "py_index (xs @ [a, b]) (- 2) = Inr a"
  "slice_to_neg (xs @ [a, b]) 2 = xs"
proof -
  have "py_index (xs @ [a, b]) (- int 1) = Inr ((xs @ [a, b]) ! (length (xs @ [a, b]) - 1))"
    by (rule py_index_neg) simp_all
  then show "py_index (xs @ [a, b]) (- 1) = Inr b" by (simp add: nth_append)
  have "py_index (xs @ [a, b]) (- int 2) = Inr ((xs @ [a, b]) ! (length (xs @ [a, b]) - 2))"
    by (rule py_index_neg) simp_all
  then show "py_index (xs @ [a, b]) (- 2) = Inr a" by (simp add: nth_append)
  show "slice_to_neg (xs @ [a, b]) 2 = xs" by (simp add: slice_to_neg_def)
qed

lemma basic_decrypt_steps:
  assumes key: "length (contents key) \<in> {16, 24, 32}"
    and len: "16 < length ct"
    and blocks: "cblocks_of ct = front_blocks @ [cb2, cb1]"
    and loop: "cbc_decrypt_loop P (contents key) front_blocks ([], replicate 16 0) = Inr (pt0, prev)"
    and b: "ecb_decrypt P (contents key) cb2 = Inr b"
    and lastpt: "xorbytes (take (length cb1) b) cb1 = Inr lastpt"
    and d: "ecb_decrypt P (contents key) (cb1 @ drop (length cb1) b) = Inr d"
    and x: "xorbytes d prev = Inr x"
  shows "basic_decrypt P key ct = Inr ((pt0 @ x) @ lastpt)"
proof -
  have c: "map (\<lambda>p. take 16 (drop p ct)) (xrange 0 (length ct) 16) = front_blocks @ [cb2, cb1]"
    using blocks by (simp only: cblocks_of_def)
  from len key show ?thesis
    unfolding basic_decrypt_def Let_def c py_index_last_two
    by (simp add: AES_new_def loop b lastpt d x)
qed

lemma map2_xor_zeros_left:
  "map2 (XOR) (replicate n 0) (b::bytes) = take n b"
proof (induction n arbitrary: b)
  case 0
  then show ?case by simp
next
  case (Suc n)
  then show ?case by (cases b) simp_all
qed

lemma take_map2: "take n (map2 f xs ys) = map2 f (take n xs) (take n ys)"
  by (simp add: take_map take_zip)

lemma drop_map2: "drop n (map2 f xs ys) = map2 f (drop n xs) (drop n ys)"
  by (simp add: drop_map drop_zip)

text \<open>
  The split of a plaintext of more than one block: whole blocks in front, the
  second-to-last block, and the last block of 1 to 16 bytes.
\<close>

lemma plaintext_split:
  fixes plaintext :: bytes
  assumes "16 < length plaintext"
  defines "lastlen \<equiv> (if length plaintext mod 16 \<noteq> 0 then length plaintext mod 16 else 16)"
  obtains front p1 lastpt where
    "plaintext = front @ p1 @ lastpt" "length front mod 16 = 0" "length p1 = 16"
    "length lastpt = lastlen" "0 < lastlen" "lastlen \<le> 16"
    "(16 - length plaintext mod 16) mod 16 = 16 - lastlen"
proof -
  let ?n = "length plaintext"
  define q where "q = ?n div 16"
  define r where "r = ?n mod 16"
  have n: "?n = 16 * q + r" and r: "r < 16" by (simp_all add: q_def r_def)
  have lr: "lastlen = (if r \<noteq> 0 then r else 16)" by (simp add: lastlen_def r_def)
  have ll: "0 < lastlen" "lastlen \<le> 16" using r by (simp_all add: lr)
  have "(16 - r) mod 16 = 16 - lastlen" using r by (simp add: lr)
  then have pad: "(16 - ?n mod 16) mod 16 = 16 - lastlen" by (simp only: r_def)
  obtain j where j: "?n = 16 * j + 16 + lastlen"
  proof (cases "r = 0")
    case True
    from n assms(1) True have "2 \<le> q" by linarith
    then have "16 * q = 16 * (q - 2) + 32" by simp
    moreover from True lr have "lastlen = 16" by simp
    ultimately have "?n = 16 * (q - 2) + 16 + lastlen" using True n by linarith
    then show ?thesis by (rule that)
  next
    case False
    from n assms(1) r have "1 \<le> q" by linarith
    then have "16 * q = 16 * (q - 1) + 16" by simp
    moreover from False lr have "lastlen = r" by simp
    ultimately have "?n = 16 * (q - 1) + 16 + lastlen" using n by linarith
    then show ?thesis by (rule that)
  qed
  let ?front = "take (16 * j) plaintext"
  let ?p1 = "take 16 (drop (16 * j) plaintext)"
  let ?lastpt = "drop 16 (drop (16 * j) plaintext)"
  have "plaintext = ?front @ (?p1 @ ?lastpt)"
    by (simp only: append_take_drop_id)
  moreover have "length ?front mod 16 = 0" using j by simp
  moreover have "length ?p1 = 16" using j by simp
  moreover have "length ?lastpt = lastlen" using j by simp
  ultimately show ?thesis using ll pad by (rule that)
qed

lemma cts_roundtrip:
  assumes inv: "\<forall>b. aes_decrypt_block P (contents key) (aes_encrypt_block P (contents key) b) = b"
    and key: "length (contents key) \<in> {16, 24, 32}"
    and len: "16 \<le> length plaintext"
  shows "bind_err (basic_encrypt P key plaintext) (basic_decrypt P key) = Inr plaintext"
proof (cases "16 < length plaintext")
  case False
  with len have n: "length plaintext = 16" by simp
  let ?c = "Rep_block (aes_encrypt_block P (contents key) (Abs_block plaintext))"
  from n have e: "basic_encrypt P key plaintext = Inr ?c"
    using key cbc_blocks_block [of plaintext _ _ "[]"]
    by (simp add: basic_encrypt_eq map2_xor_zeros)
  have "basic_decrypt P key ?c = Inr plaintext"
    using key n inv by (simp add: basic_decrypt_def AES_new_def ecb_decrypt_single)
  with e show ?thesis by simp
next
  case True
  let ?k = "contents key"
  let ?E = "aes_encrypt_block P ?k"
  let ?z = "replicate 16 (0::byte)"
  define lastlen where
    "lastlen = (if length plaintext mod 16 \<noteq> 0 then length plaintext mod 16 else 16)"
  from plaintext_split [OF True] obtain front p1 lastpt where
    pt: "plaintext = front @ p1 @ lastpt" and fa: "length front mod 16 = 0"
    and lp1: "length p1 = 16" and ll: "length lastpt = lastlen" "0 < lastlen" "lastlen \<le> 16"
    and pad: "(16 - length plaintext mod 16) mod 16 = 16 - lastlen"
    unfolding lastlen_def by metis
  define p2 where "p2 = lastpt @ replicate (16 - lastlen) 0"
  define iv1 where "iv1 = cbc_chain ?E ?z front"
  define c1 where "c1 = Rep_block (?E (Abs_block (map2 (XOR) p1 iv1)))"
  define c2 where "c2 = Rep_block (?E (Abs_block (map2 (XOR) p2 c1)))"
  define Cf where "Cf = cbc_blocks ?E ?z front"
  have lp2: "length p2 = 16" using ll by (simp add: p2_def)
  have liv1: "length iv1 = 16" using fa by (simp add: iv1_def length_cbc_chain)
  have lc1: "length c1 = 16" and lc2: "length c2 = 16" by (simp_all add: c1_def c2_def)
  have lCf: "length Cf = length front" using fa by (simp add: Cf_def length_cbc_blocks)
  have "plaintext @ replicate ((16 - length plaintext mod 16) mod 16) 0
      = plaintext @ replicate (16 - lastlen) 0"
    by (simp only: pad)
  also have "\<dots> = front @ p1 @ p2"
    by (simp add: pt p2_def)
  finally have padded:
    "plaintext @ replicate ((16 - length plaintext mod 16) mod 16) 0 = front @ p1 @ p2" .
  have "cbc_blocks ?E ?z (front @ (p1 @ p2)) = Cf @ cbc_blocks ?E iv1 (p1 @ p2)"
    using fa by (simp only: cbc_blocks_append Cf_def iv1_def)
  also have "cbc_blocks ?E iv1 (p1 @ p2) = c1 @ cbc_blocks ?E c1 p2"
    using lp1 by (simp only: cbc_blocks_block c1_def)
  also have "cbc_blocks ?E c1 p2 = c2"
    using cbc_blocks_block [of p2 ?E c1 "[]"] lp2 by (simp add: c2_def)
  finally have ctext: "cbc_blocks ?E ?z (front @ p1 @ p2) = Cf @ c1 @ c2" .
  have slices: "slice_to_neg (Cf @ c1 @ c2) 32 = Cf" "slice_from_neg (Cf @ c1 @ c2) 16 = c2"
    "slice_neg_neg (Cf @ c1 @ c2) 32 16 = c1"
    using lc1 lc2 by (simp_all add: slice_to_neg_def slice_from_neg_def slice_neg_neg_def)
  let ?ct = "Cf @ c2 @ take lastlen c1"
  have e: "basic_encrypt P key plaintext = Inr ?ct"
    using True len key
    by (simp add: basic_encrypt_eq Let_def padded ctext slices lastlen_def)
  have lt: "length (take lastlen c1) = lastlen" using lc1 ll by simp
  have "length ?ct = length Cf + (16 + lastlen)" by (simp only: length_append lc2 lt)
  with ll have lct: "16 < length ?ct" by linarith
  have "cblocks_of ?ct = cblocks_of Cf @ cblocks_of (c2 @ take lastlen c1)"
    using fa lCf by (simp add: cblocks_of_append)
  also have "cblocks_of (c2 @ take lastlen c1) = [c2, take lastlen c1]"
    using lc2 lt ll by (simp add: cblocks_of_block cblocks_of_short)
  finally have blocks: "cblocks_of ?ct = cblocks_of Cf @ [c2, take lastlen c1]" .
  have loop: "cbc_decrypt_loop P ?k (cblocks_of Cf) ([], ?z) = Inr (front, iv1)"
    using cbc_decrypt_loop_cbc_blocks [OF fa, of ?z P ?k "[]"] inv
    by (simp add: Cf_def iv1_def)
  have b: "ecb_decrypt P ?k c2 = Inr (map2 (XOR) p2 c1)"
    using lp2 lc1 inv by (simp add: ecb_decrypt_single c2_def)
  have "take lastlen (map2 (XOR) p2 c1) = map2 (XOR) lastpt (take lastlen c1)"
    using ll by (simp add: take_map2 p2_def)
  then have lastp: "xorbytes (take (length (take lastlen c1)) (map2 (XOR) p2 c1)) (take lastlen c1)
      = Inr lastpt"
    using ll lt by (simp add: xorbytes_eq map2_xor_cancel)
  have "drop lastlen (map2 (XOR) p2 c1) = drop lastlen c1"
    using ll lc1 by (simp add: drop_map2 p2_def map2_xor_zeros_left)
  then have "take lastlen c1 @ drop (length (take lastlen c1)) (map2 (XOR) p2 c1) = c1"
    using lt by simp
  then have d: "ecb_decrypt P ?k (take lastlen c1 @ drop (length (take lastlen c1)) (map2 (XOR) p2 c1))
      = Inr (map2 (XOR) p1 iv1)"
    using lp1 liv1 inv by (simp add: ecb_decrypt_single c1_def)
  have x: "xorbytes (map2 (XOR) p1 iv1) iv1 = Inr p1"
    using lp1 liv1 by (simp add: xorbytes_eq map2_xor_cancel)
  have "basic_decrypt P key ?ct = Inr ((front @ p1) @ lastpt)"
    by (rule basic_decrypt_steps [OF key lct blocks loop b lastp d x])
  with e pt show ?thesis by simp
qed

text \<open>
  Claim C2. With AES as a block cipher whose decryption inverts its encryption under the
  given key, for every key that PyCrypto accepts (16, 24 or 32 bytes) and every
  plaintext of at least 16 bytes, \<open>basic_encrypt\<close> returns a ciphertext and
  \<open>basic_decrypt\<close> of that ciphertext returns the plaintext: for one block, for several
  whole blocks and for a last block that is cut short.
\<close>

theorem basic_decrypt_basic_encrypt:
  assumes "\<forall>b. aes_decrypt_block P (contents key) (aes_encrypt_block P (contents key) b) = b"
    and "length (contents key) \<in> {16, 24, 32}"
    and "16 \<le> length plaintext"
  shows "bind_err (basic_encrypt P key plaintext) (basic_decrypt P key) = Inr plaintext"
  using assms by (rule cts_roundtrip)

theorem basic_decrypt_basic_encrypt_witness:
  "bind_err (basic_encrypt toy_primitives \<lparr>enctype = 17, contents = replicate 16 1\<rparr>
              (replicate 16 3 @ [1, 2, 3, 4, 5]))
     (basic_decrypt toy_primitives \<lparr>enctype = 17, contents = replicate 16 1\<rparr>)
   = Inr (replicate 16 3 @ [1, 2, 3, 4, 5])"
  using basic_decrypt_basic_encrypt [of toy_primitives "\<lparr>enctype = 17, contents = replicate 16 1\<rparr>"
      "replicate 16 3 @ [1, 2, 3, 4, 5]"]
  by (simp add: toy_cipher_inverse)

section \<open>Authenticated encryption: \<open>encrypt\<close> and \<open>decrypt\<close>\<close>

lemma zeropad_1: "zeropad s 1 = Inr s" "zeropad s (Suc 0) = Inr s"
  by (simp_all add: zeropad_def)

lemma enctypenum_distinct: "AES256_CTS \<noteq> AES128_CTS"
  by (simp add: AES128_CTS_def AES256_CTS_def)

lemma supported_profile:
  assumes "etype \<in> {AES128_CTS, AES256_CTS}"
  obtains cls where "get_enctype_profile etype = Inr cls"
    "blocksize cls = 16" "padsize cls = 1" "macsize cls = 12" "seedsize cls \<in> {16, 32}"
    "cls_enctype cls = AES256_CTS"
    "seedsize cls = (if etype = AES128_CTS then 16 else 32)"
proof (cases "etype = AES128_CTS")
  case True
  show ?thesis
    by (rule that [of AES128CTS]) (simp_all add: True get_enctype_profile_cases)
next
  case False
  with assms have e: "etype = AES256_CTS" by simp
  show ?thesis
    by (rule that [of AES256CTS]) (simp_all add: e get_enctype_profile_cases enctypenum_distinct)
qed

text \<open>The two derived keys of \<open>encrypt\<close> and \<open>decrypt\<close>.\<close>

lemma usage_keys:
  assumes "length (contents key) \<in> {16, 24, 32}" and "blocksize cls = 16"
    and "0 \<le> keyusage" and "keyusage < 2 ^ 32"
  obtains ci ki ce ke where
    "pack_IB keyusage 0x55 = Inr ci" "derive P cls key ci = Inr ki"
    "pack_IB keyusage 0xAA = Inr ce" "derive P cls key ce = Inr ke"
    "length (contents ki) = seedsize cls" "length (contents ke) = seedsize cls"
proof -
  from assms pack_IB_ok [of keyusage "0x55"] obtain ci where
    ci: "pack_IB keyusage 0x55 = Inr ci" "ci \<noteq> []" by auto
  from assms pack_IB_ok [of keyusage "0xAA"] obtain ce where
    ce: "pack_IB keyusage 0xAA = Inr ce" "ce \<noteq> []" by auto
  from derive_total [OF assms(1) ci(2) assms(2), of P] obtain ki where
    ki: "derive P cls key ci = Inr ki" "length (contents ki) = seedsize cls" by blast
  from derive_total [OF assms(1) ce(2) assms(2), of P] obtain ke where
    ke: "derive P cls key ce = Inr ke" "length (contents ke) = seedsize cls" by blast
  from ci(1) ki(1) ce(1) ke(1) ki(2) ke(2) show ?thesis by (rule that)
qed

lemma mac_slices:
  assumes "length mac = 12"
  shows "slice_to_neg (c @ mac) 12 = c" and "slice_from_neg (c @ mac) 12 = mac"
  using assms by (simp_all add: slice_to_neg_def slice_from_neg_def)

lemma encrypt_decrypt_roundtrip:
  assumes inv: "\<forall>k b. aes_decrypt_block P k (aes_encrypt_block P k b) = b"
    and etype: "enctype key \<in> {AES128_CTS, AES256_CTS}"
    and key: "length (contents key) \<in> {16, 24, 32}"
    and usage: "0 \<le> keyusage" "keyusage < 2 ^ 32"
    and conf: "length confounder = 16"
  shows "bind_err (encrypt P key keyusage plaintext (Some confounder)) (decrypt P key keyusage)
     = Inr plaintext"
proof -
  from supported_profile [OF etype] obtain cls where
    cls: "get_enctype_profile (enctype key) = Inr cls"
      "blocksize cls = 16" "padsize cls = 1" "macsize cls = 12" "seedsize cls \<in> {16, 32}"
    by metis
  from usage_keys [OF key cls(2) usage, of P] obtain ci ki ce ke where
    k: "pack_IB keyusage 0x55 = Inr ci" "derive P cls key ci = Inr ki"
       "pack_IB keyusage 0xAA = Inr ce" "derive P cls key ce = Inr ke"
       "length (contents ki) = seedsize cls" "length (contents ke) = seedsize cls"
    by metis
  let ?bp = "confounder @ plaintext"
  let ?mac = "take 12 (hmac_digest P (contents ki) ?bp)"
  from k(6) cls(5) have kek: "length (contents ke) \<in> {16, 24, 32}" by auto
  from conf have bpl: "16 \<le> length ?bp" by simp
  from basic_encrypt_total [OF kek bpl, of P] obtain c where
    c: "basic_encrypt P ke ?bp = Inr c" by blast
  from inv have "\<forall>b. aes_decrypt_block P (contents ke) (aes_encrypt_block P (contents ke) b) = b"
    by simp
  from cts_roundtrip [OF this kek bpl] c have d: "basic_decrypt P ke c = Inr ?bp" by simp
  have lc: "length c = length ?bp" using c by (rule basic_encrypt_length)
  have lm: "length ?mac = 12" by (simp add: hmac_digest_def)
  have e: "encrypt P key keyusage plaintext (Some confounder) = Inr (c @ ?mac)"
    by (simp add: encrypt_def SimplifiedEnctype_encrypt_def cls k zeropad_1 c Let_def)
  have long: "\<not> length (c @ ?mac) < 16 + 12" using lc bpl lm by simp
  have "decrypt P key keyusage (c @ ?mac) = Inr plaintext"
    using long conf
    by (simp add: decrypt_def SimplifiedEnctype_decrypt_def cls k Let_def mac_slices [OF lm] d
          mac_equal_eq del: length_append)
  with e show ?thesis by simp
qed

text \<open>
  Claim C1. For a key of a supported enctype (AES128-CTS, AES256-CTS) whose contents
  have the seed size of its profile, a key usage number (an unsigned 32-bit value, as
  \<^verbatim>\<open>pack('>IB', ...)\<close> requires), a confounder of 16 bytes and a plaintext of 1 to 200
  bytes, \<open>encrypt\<close> returns a ciphertext and \<open>decrypt\<close> of it returns exactly the
  plaintext. AES is any block cipher whose decryption inverts its encryption.
\<close>

theorem decrypt_encrypt:
  assumes "\<forall>k b. aes_decrypt_block P k (aes_encrypt_block P k b) = b"
    and "enctype key \<in> {AES128_CTS, AES256_CTS}"
    and "length (contents key) = (if enctype key = AES128_CTS then 16 else 32)"
    and "0 \<le> keyusage" and "keyusage < 2 ^ 32"
    and "length confounder = 16"
    and "1 \<le> length plaintext" and "length plaintext \<le> 200"
  shows "bind_err (encrypt P key keyusage plaintext (Some confounder)) (decrypt P key keyusage)
     = Inr plaintext"
proof -
  from assms(3) have "length (contents key) \<in> {16, 24, 32}" by (simp split: if_splits)
  with assms show ?thesis by (intro encrypt_decrypt_roundtrip) simp_all
qed

theorem decrypt_encrypt_witness:
  "bind_err (encrypt toy_primitives \<lparr>enctype = 17, contents = replicate 16 1\<rparr> 2
               [57, 32, 98, 121, 116, 101, 115, 115, 115] (Some (replicate 16 148)))
            (decrypt toy_primitives \<lparr>enctype = 17, contents = replicate 16 1\<rparr> 2)
   = Inr [57, 32, 98, 121, 116, 101, 115, 115, 115]"
  using decrypt_encrypt [of toy_primitives "\<lparr>enctype = 17, contents = replicate 16 1\<rparr>" 2
      "replicate 16 148" "[57, 32, 98, 121, 116, 101, 115, 115, 115]"]
  by (simp add: toy_cipher_inverse AES128_CTS_def)

end
